theory Spec2Isabelle
  imports Complex_Main
begin

section \<open>Python floats\<close>

text \<open>
  The selectors and the recognizer compare log-likelihoods with the sentinels
  \<^verbatim>\<open>float("inf")\<close> and \<^verbatim>\<open>float("-inf")\<close>, and \<^verbatim>\<open>np.mean\<close> of an empty list is
  \<^verbatim>\<open>nan\<close>. A Python float is modelled as one of the three special values or a real number:
  the special values behave as IEEE 754 says, finite arithmetic is exact (rounding is not
  modelled).
\<close>

datatype pyfloat = NegInf | Fin real | PosInf | NaN

text \<open>\<open>fl_less a b\<close> is Python's \<^verbatim>\<open>a < b\<close>; every comparison with \<^verbatim>\<open>nan\<close> is false.\<close>

fun fl_less :: "pyfloat \<Rightarrow> pyfloat \<Rightarrow> bool" where
  "fl_less NaN b = False"
| "fl_less a NaN = False"
| "fl_less NegInf NegInf = False"
| "fl_less NegInf b = True"
| "fl_less (Fin a) (Fin b) = (a < b)"
| "fl_less (Fin a) PosInf = True"
| "fl_less (Fin a) NegInf = False"
| "fl_less PosInf b = False"

text \<open>\<open>fl_greater a b\<close> is Python's \<^verbatim>\<open>a > b\<close>.\<close>

definition fl_greater :: "pyfloat \<Rightarrow> pyfloat \<Rightarrow> bool" where
  "fl_greater a b = fl_less b a"

fun fl_add :: "pyfloat \<Rightarrow> pyfloat \<Rightarrow> pyfloat" where
  "fl_add NaN b = NaN"
| "fl_add a NaN = NaN"
| "fl_add NegInf PosInf = NaN"
| "fl_add PosInf NegInf = NaN"
| "fl_add NegInf b = NegInf"
| "fl_add PosInf b = PosInf"
| "fl_add (Fin a) (Fin b) = Fin (a + b)"
| "fl_add (Fin a) NegInf = NegInf"
| "fl_add (Fin a) PosInf = PosInf"

fun fl_sub :: "pyfloat \<Rightarrow> pyfloat \<Rightarrow> pyfloat" where
  "fl_sub NaN b = NaN"
| "fl_sub a NaN = NaN"
| "fl_sub NegInf NegInf = NaN"
| "fl_sub PosInf PosInf = NaN"
| "fl_sub NegInf b = NegInf"
| "fl_sub PosInf b = PosInf"
| "fl_sub (Fin a) (Fin b) = Fin (a - b)"
| "fl_sub (Fin a) NegInf = PosInf"
| "fl_sub (Fin a) PosInf = NegInf"

text \<open>Division of a float by a positive count, as \<^verbatim>\<open>np.mean\<close> does after summing.\<close>

fun fl_div_count :: "pyfloat \<Rightarrow> nat \<Rightarrow> pyfloat" where
  "fl_div_count (Fin a) k = Fin (a / real k)"
| "fl_div_count a k = a"

text \<open>\<^verbatim>\<open>np.mean(xs)\<close>: \<^verbatim>\<open>nan\<close> (with a warning, no exception) on the empty list.\<close>

definition np_mean :: "pyfloat list \<Rightarrow> pyfloat" where
  "np_mean xs = (if xs = [] then NaN else fl_div_count (foldl fl_add (Fin 0) xs) (length xs))"

text \<open>\<^verbatim>\<open>np.average(res)\<close> on a list of finite scores; the source calls it on a list that is
  not empty only.\<close>

definition np_average :: "real list \<Rightarrow> real" where
  "np_average res = sum_list res / real (length res)"

section \<open>Data and the external trainer\<close>

text \<open>
  A frame is one observation (a feature vector), a sequence a list of frames. The training
  API takes a feature matrix (all frames of all sequences of a word) and the list of the
  sequences' lengths.
\<close>

type_synonym frame = "real list"
type_synonym sequence = "frame list"
type_synonym xlengths = "frame list \<times> nat list"

text \<open>
  The external collaborators, as parameters. \<open>fit n seed (X, lengths)\<close> is
  \<^verbatim>\<open>GaussianHMM(n_components=n, covariance_type="diag", n_iter=1000, random_state=seed,
  verbose=False).fit(X, lengths)\<close>, \<open>None\<close> when it raises; \<open>score m (X, lengths)\<close> is
  \<^verbatim>\<open>m.score(X, lengths)\<close>, \<open>None\<close> when it raises. \<open>kfold k sequences\<close> is, for every
  \<^verbatim>\<open>train, test in KFold(k).split(sequences)\<close> in order, the pair
  \<^verbatim>\<open>(combine_sequences(train, sequences), combine_sequences(test, sequences))\<close>.
  The trainer is deterministic once its seed is fixed, so it is a function of its inputs.
\<close>

record 'm lib =
  fit :: "int \<Rightarrow> int \<Rightarrow> xlengths \<Rightarrow> 'm option"
  score :: "'m \<Rightarrow> xlengths \<Rightarrow> real option"
  kfold :: "nat \<Rightarrow> sequence list \<Rightarrow> (xlengths \<times> xlengths) list"

datatype error = KeyError

section \<open>Process state\<close>

text \<open>
  \<open>result_dict\<close> is the class attribute \<^verbatim>\<open>SelectorDIC.result_dict\<close>: \<open>None\<close> at first, then
  a dictionary from (word, n) to (model or \<^verbatim>\<open>None\<close>, log-likelihood). \<open>fit_calls\<close> records
  every call of the trainer's \<^verbatim>\<open>fit\<close>, in order, with its state count and its data: it is
  what a counting stub trainer would observe.
\<close>

type_synonym 'm cache = "(string \<times> int) \<rightharpoonup> ('m option \<times> pyfloat)"

record 'm process =
  result_dict :: "'m cache option"
  fit_calls :: "(int \<times> xlengths) list"

definition gaussian_fit ::
  "'m lib \<Rightarrow> int \<Rightarrow> int \<Rightarrow> xlengths \<Rightarrow> 'm process \<Rightarrow> 'm option \<times> 'm process" where
  "gaussian_fit L n seed xl st = (fit L n seed xl, st\<lparr>fit_calls := fit_calls st @ [(n, xl)]\<rparr>)"

section \<open>ModelSelector\<close>

text \<open>
  The fields of a selector object after \<^verbatim>\<open>__init__\<close>. \<open>words\<close> is the dictionary
  \<^verbatim>\<open>all_word_sequences\<close> in its iteration order, \<open>hwords\<close> the dictionary
  \<^verbatim>\<open>all_word_Xlengths\<close>, which is only looked up. \<^verbatim>\<open>verbose\<close> only prints and is left out.

  SelectorDIC compares the keys of \<open>words\<close> with \<^verbatim>\<open>self.this_word\<close> by object identity
  (\<^verbatim>\<open>is not\<close>). A dictionary has one key object for a value, and an object identical to
  \<^verbatim>\<open>this_word\<close> has its value, so the test can only hold for the key that equals
  \<open>this_word\<close>. \<open>this_word_is_key\<close> records whether that key is the very object the selector
  was built with (\<open>True\<close>), or an equal string that is another object (\<open>False\<close>).
\<close>

record selector =
  words :: "(string \<times> sequence list) list"
  hwords :: "string \<rightharpoonup> xlengths"
  sequences :: "sequence list"
  self_X :: "frame list"
  self_lengths :: "nat list"
  this_word :: string
  this_word_is_key :: bool
  n_constant :: int
  min_n_components :: int
  max_n_components :: int
  random_state :: int

text \<open>\<^verbatim>\<open>ModelSelector.__init__\<close>; both lookups of \<^verbatim>\<open>this_word\<close> raise KeyError on a missing
  key. \<open>is_key\<close> says whether the argument \<^verbatim>\<open>this_word\<close> is the key object itself.\<close>

definition init_selector ::
  "(string \<times> sequence list) list \<Rightarrow> (string \<rightharpoonup> xlengths) \<Rightarrow> string \<Rightarrow> bool
    \<Rightarrow> int \<Rightarrow> int \<Rightarrow> int \<Rightarrow> int \<Rightarrow> error + selector" where
  "init_selector all_word_sequences all_word_Xlengths w is_key nc mn mx seed =
     (case map_of all_word_sequences w of
        None \<Rightarrow> Inl KeyError
      | Some seqs \<Rightarrow>
          (case all_word_Xlengths w of
             None \<Rightarrow> Inl KeyError
           | Some (x, ls) \<Rightarrow>
               Inr \<lparr>words = all_word_sequences, hwords = all_word_Xlengths, sequences = seqs,
                    self_X = x, self_lengths = ls, this_word = w, this_word_is_key = is_key,
                    n_constant = nc,
                    min_n_components = mn, max_n_components = mx, random_state = seed\<rparr>))"

text \<open>\<^verbatim>\<open>base_model\<close>: the bare \<^verbatim>\<open>except\<close> turns every failure of the trainer into \<^verbatim>\<open>None\<close>.\<close>

definition base_model ::
  "'m lib \<Rightarrow> selector \<Rightarrow> int \<Rightarrow> 'm process \<Rightarrow> 'm option \<times> 'm process" where
  "base_model L sel num_states st =
     gaussian_fit L num_states (random_state sel) (self_X sel, self_lengths sel) st"

section \<open>SelectorConstant\<close>

definition select_Constant :: "'m lib \<Rightarrow> selector \<Rightarrow> 'm process \<Rightarrow> 'm option \<times> 'm process" where
  "select_Constant L sel st = (let best_num_components = n_constant sel
                               in base_model L sel best_num_components st)"

section \<open>SelectorBIC\<close>

text \<open>
  The body of the \<^verbatim>\<open>try\<close> after \<^verbatim>\<open>base_model\<close>: \<^verbatim>\<open>model.score\<close> raises on \<^verbatim>\<open>None\<close> and
  when scoring fails, \<^verbatim>\<open>self.X[0]\<close> raises on an empty matrix; every exception skips the
  candidate (\<open>None\<close>).
\<close>

definition bic_score :: "'m lib \<Rightarrow> selector \<Rightarrow> int \<Rightarrow> 'm option \<Rightarrow> real option" where
  "bic_score L sel n model =
     (case model of
        None \<Rightarrow> None
      | Some m \<Rightarrow>
          (case score L m (self_X sel, self_lengths sel) of
             None \<Rightarrow> None
           | Some sc \<Rightarrow>
               (case self_X sel of
                  [] \<Rightarrow> None
                | x0 # _ \<Rightarrow>
                    (let n_features = int (length x0);
                         transition_numbers = n * (n - 1);
                         n_params = transition_numbers + 2 * n_features * n;
                         logN = ln (real (length (self_X sel)));
                         current_bic = - 2 * sc + real_of_int n_params * logN
                     in Some current_bic))))"

fun bic_loop ::
  "'m lib \<Rightarrow> selector \<Rightarrow> int list \<Rightarrow> pyfloat \<times> 'm option \<Rightarrow> 'm process
    \<Rightarrow> (pyfloat \<times> 'm option) \<times> 'm process" where
  "bic_loop L sel [] (min_score, min_model) st = ((min_score, min_model), st)"
| "bic_loop L sel (n # ns) (min_score, min_model) st =
     (case base_model L sel n st of
        (model, st1) \<Rightarrow>
          (case bic_score L sel n model of
             None \<Rightarrow> bic_loop L sel ns (min_score, min_model) st1
           | Some current_bic \<Rightarrow>
               if fl_less (Fin current_bic) min_score
               then bic_loop L sel ns (Fin current_bic, model) st1
               else bic_loop L sel ns (min_score, min_model) st1))"

definition select_BIC :: "'m lib \<Rightarrow> selector \<Rightarrow> 'm process \<Rightarrow> 'm option \<times> 'm process" where
  "select_BIC L sel st =
     (case bic_loop L sel [min_n_components sel .. max_n_components sel] (PosInf, None) st of
        ((min_score, min_model), st1) \<Rightarrow>
          (case min_model of
             None \<Rightarrow> base_model L sel (n_constant sel) st1
           | Some m \<Rightarrow> (Some m, st1)))"

section \<open>SelectorDIC\<close>

text \<open>
  One entry of the cache: train the word's model at \<open>n\<close> and score it on the word's own
  data; any failure gives \<^verbatim>\<open>(None, float("-inf"))\<close>.
\<close>

definition prepare_entry ::
  "'m lib \<Rightarrow> selector \<Rightarrow> int \<Rightarrow> xlengths \<Rightarrow> 'm process \<Rightarrow> ('m option \<times> pyfloat) \<times> 'm process" where
  "prepare_entry L sel n xl st =
     (case gaussian_fit L n (random_state sel) xl st of
        (None, st1) \<Rightarrow> ((None, NegInf), st1)
      | (Some word_model, st1) \<Rightarrow>
          (case score L word_model xl of
             None \<Rightarrow> ((None, NegInf), st1)
           | Some word_score \<Rightarrow> ((Some word_model, Fin word_score), st1)))"

text \<open>
  The inner loop of \<^verbatim>\<open>prepare\<close> over the words. \<^verbatim>\<open>self.hwords[w]\<close> stands outside the
  \<^verbatim>\<open>try\<close>: a missing key raises KeyError out of \<^verbatim>\<open>prepare\<close>. The class attribute is
  assigned the local dictionary after every entry; it is the same object, so the class
  attribute always holds the entries written so far, also when the loop is left by KeyError.
\<close>

fun prepare_words ::
  "'m lib \<Rightarrow> selector \<Rightarrow> int \<Rightarrow> string list \<Rightarrow> 'm cache \<Rightarrow> 'm process
    \<Rightarrow> (error + 'm cache) \<times> 'm process" where
  "prepare_words L sel n [] d st = (Inr d, st)"
| "prepare_words L sel n (w # ws) d st =
     (case hwords sel w of
        None \<Rightarrow> (Inl KeyError, st)
      | Some xl \<Rightarrow>
          (case prepare_entry L sel n xl st of
             (e, st1) \<Rightarrow>
               (let d1 = d((w, n) \<mapsto> e)
                in prepare_words L sel n ws d1 (st1\<lparr>result_dict := Some d1\<rparr>))))"

fun prepare_loop ::
  "'m lib \<Rightarrow> selector \<Rightarrow> int list \<Rightarrow> 'm cache \<Rightarrow> 'm process \<Rightarrow> (error + 'm cache) \<times> 'm process" where
  "prepare_loop L sel [] d st = (Inr d, st)"
| "prepare_loop L sel (n # ns) d st =
     (case prepare_words L sel n (map fst (words sel)) d st of
        (Inl e, st1) \<Rightarrow> (Inl e, st1)
      | (Inr d1, st1) \<Rightarrow> prepare_loop L sel ns d1 st1)"

definition prepare :: "'m lib \<Rightarrow> selector \<Rightarrow> 'm process \<Rightarrow> (error + 'm cache) \<times> 'm process" where
  "prepare L sel st =
     (case result_dict st of
        Some d \<Rightarrow> (Inr d, st)
      | None \<Rightarrow>
          prepare_loop L sel [min_n_components sel .. max_n_components sel] Map.empty st)"

text \<open>
  The list comprehension over the other words: a missing key raises KeyError (\<open>None\<close>), an
  entry without a model is left out.
\<close>

fun others_scores :: "'m cache \<Rightarrow> int \<Rightarrow> string list \<Rightarrow> pyfloat list option" where
  "others_scores dict n [] = Some []"
| "others_scores dict n (w # ws) =
     (case dict (w, n) of
        None \<Rightarrow> None
      | Some (m, s) \<Rightarrow>
          (case others_scores dict n ws of
             None \<Rightarrow> None
           | Some ss \<Rightarrow> Some (if m \<noteq> None then s # ss else ss)))"

text \<open>
  The body of the \<^verbatim>\<open>try\<close> up to the comparison: the candidate's DIC and the cached model
  of the target word, \<open>None\<close> when a lookup raises KeyError. \<open>others\<close> is
  \<^verbatim>\<open>[w for w in self.words if w is not self.this_word]\<close>: a key is left out only when it is
  the object \<^verbatim>\<open>self.this_word\<close>, so the target word stays among the others when the selector
  was built with an equal string that is another object.
\<close>

definition dic_candidate :: "'m cache \<Rightarrow> selector \<Rightarrow> int \<Rightarrow> (pyfloat \<times> 'm option) option" where
  "dic_candidate dict sel n =
     (case dict (this_word sel, n) of
        None \<Rightarrow> None
      | Some (current_model, current_word_score) \<Rightarrow>
          (let others = filter (\<lambda>w. \<not> (w = this_word sel \<and> this_word_is_key sel))
                          (map fst (words sel))
           in case others_scores dict n others of
                None \<Rightarrow> None
              | Some scores \<Rightarrow> Some (fl_sub current_word_score (np_mean scores), current_model)))"

fun dic_loop ::
  "'m cache \<Rightarrow> selector \<Rightarrow> int list \<Rightarrow> pyfloat \<times> 'm option \<Rightarrow> pyfloat \<times> 'm option" where
  "dic_loop dict sel [] (max_dic, max_model) = (max_dic, max_model)"
| "dic_loop dict sel (n # ns) (max_dic, max_model) =
     (case dic_candidate dict sel n of
        None \<Rightarrow> dic_loop dict sel ns (max_dic, max_model)
      | Some (dic, current_model) \<Rightarrow>
          if fl_greater dic max_dic
          then dic_loop dict sel ns (dic, current_model)
          else dic_loop dict sel ns (max_dic, max_model))"

definition select_DIC ::
  "'m lib \<Rightarrow> selector \<Rightarrow> 'm process \<Rightarrow> (error + 'm option) \<times> 'm process" where
  "select_DIC L sel st =
     (case prepare L sel st of
        (Inl e, st1) \<Rightarrow> (Inl e, st1)
      | (Inr dict, st1) \<Rightarrow>
          (case dic_loop dict sel [min_n_components sel .. max_n_components sel] (NegInf, None) of
             (max_dic, max_model) \<Rightarrow>
               (case max_model of
                  None \<Rightarrow> (case base_model L sel (n_constant sel) st1 of (m, st2) \<Rightarrow> (Inr m, st2))
                | Some m \<Rightarrow> (Inr (Some m), st1))))"

section \<open>SelectorCV\<close>

text \<open>
  The loop over the folds for one \<open>n\<close>. \<open>word_model\<close> is the local variable of that name
  (\<open>None\<close> while it is unbound): it is assigned when \<^verbatim>\<open>fit\<close> returns, also when the scoring
  that follows raises, and it keeps its value from fold to fold and from \<open>n\<close> to \<open>n\<close>.
\<close>

fun cv_folds ::
  "'m lib \<Rightarrow> selector \<Rightarrow> int \<Rightarrow> (xlengths \<times> xlengths) list \<Rightarrow> real list \<times> 'm option \<Rightarrow> 'm process
    \<Rightarrow> (real list \<times> 'm option) \<times> 'm process" where
  "cv_folds L sel n [] (res, word_model) st = ((res, word_model), st)"
| "cv_folds L sel n ((train, test) # fs) (res, word_model) st =
     (case gaussian_fit L n (random_state sel) train st of
        (None, st1) \<Rightarrow> cv_folds L sel n fs (res, word_model) st1
      | (Some m, st1) \<Rightarrow>
          (case score L m test of
             None \<Rightarrow> cv_folds L sel n fs (res, Some m) st1
           | Some word_score \<Rightarrow> cv_folds L sel n fs (res @ [word_score], Some m) st1))"

definition spl :: nat where
  "spl = 3"

fun cv_loop ::
  "'m lib \<Rightarrow> selector \<Rightarrow> int list \<Rightarrow> pyfloat \<times> 'm option \<times> 'm option \<Rightarrow> 'm process
    \<Rightarrow> (pyfloat \<times> 'm option \<times> 'm option) \<times> 'm process" where
  "cv_loop L sel [] (max_cv, max_model, word_model) st = ((max_cv, max_model, word_model), st)"
| "cv_loop L sel (n # ns) (max_cv, max_model, word_model) st =
     (if length (sequences sel) < spl then ((max_cv, max_model, word_model), st)
      else
        (case cv_folds L sel n (kfold L spl (sequences sel)) ([], word_model) st of
           ((res, word_model1), st1) \<Rightarrow>
             if length res > 0 then
               (let avg = np_average res
                in if fl_greater (Fin avg) max_cv
                   then cv_loop L sel ns (Fin avg, word_model1, word_model1) st1
                   else cv_loop L sel ns (max_cv, max_model, word_model1) st1)
             else cv_loop L sel ns (max_cv, max_model, word_model1) st1))"

definition select_CV :: "'m lib \<Rightarrow> selector \<Rightarrow> 'm process \<Rightarrow> 'm option \<times> 'm process" where
  "select_CV L sel st =
     (case cv_loop L sel [min_n_components sel .. max_n_components sel] (NegInf, None, None) st of
        ((max_cv, max_model, word_model), st1) \<Rightarrow>
          (case max_model of
             None \<Rightarrow> base_model L sel (n_constant sel) st1
           | Some m \<Rightarrow> (Some m, st1)))"

section \<open>The four strategies\<close>

datatype strategy = Constant | BIC | DIC | CV

text \<open>\<^verbatim>\<open>select()\<close> on a selector of the given class.\<close>

fun select ::
  "strategy \<Rightarrow> 'm lib \<Rightarrow> selector \<Rightarrow> 'm process \<Rightarrow> (error + 'm option) \<times> 'm process" where
  "select Constant L sel st = (case select_Constant L sel st of (m, st1) \<Rightarrow> (Inr m, st1))"
| "select BIC L sel st = (case select_BIC L sel st of (m, st1) \<Rightarrow> (Inr m, st1))"
| "select DIC L sel st = select_DIC L sel st"
| "select CV L sel st = (case select_CV L sel st of (m, st1) \<Rightarrow> (Inr m, st1))"

text \<open>
  The candidate a strategy's search retains: \<^verbatim>\<open>min_model\<close> or \<^verbatim>\<open>max_model\<close> when the loop
  over the state counts is left (\<open>None\<close> when no candidate survived; SelectorConstant has no
  search). SelectorDIC's \<^verbatim>\<open>prepare\<close> may raise KeyError before the search.
\<close>

fun survivor ::
  "strategy \<Rightarrow> 'm lib \<Rightarrow> selector \<Rightarrow> 'm process \<Rightarrow> error + 'm option" where
  "survivor Constant L sel st = Inr None"
| "survivor BIC L sel st =
     Inr (snd (fst (bic_loop L sel [min_n_components sel .. max_n_components sel] (PosInf, None) st)))"
| "survivor DIC L sel st =
     (case prepare L sel st of
        (Inl e, st1) \<Rightarrow> Inl e
      | (Inr dict, st1) \<Rightarrow>
          Inr (snd (dic_loop dict sel [min_n_components sel .. max_n_components sel] (NegInf, None))))"
| "survivor CV L sel st =
     Inr (fst (snd (fst (cv_loop L sel [min_n_components sel .. max_n_components sel]
                           (NegInf, None, None) st))))"

section \<open>The recognizer\<close>

text \<open>
  The loop over the words of \<^verbatim>\<open>models\<close> for one test item. \<open>models\<close> is the dictionary in
  its iteration order; \<open>current_word\<close> is \<open>None\<close> while it is Python's \<^verbatim>\<open>None\<close>; \<open>wp\<close> is
  the item's score table.
\<close>

fun recognize_words ::
  "'m lib \<Rightarrow> (string \<times> 'm) list \<Rightarrow> xlengths \<Rightarrow> string option \<times> pyfloat \<times> (string \<rightharpoonup> pyfloat)
    \<Rightarrow> string option \<times> pyfloat \<times> (string \<rightharpoonup> pyfloat)" where
  "recognize_words L [] xl (current_word, current_word_prob, wp) =
     (current_word, current_word_prob, wp)"
| "recognize_words L ((word, word_model) # ms) xl (current_word, current_word_prob, wp) =
     (case score L word_model xl of
        Some word_score \<Rightarrow>
          (let wp1 = wp(word \<mapsto> Fin word_score)
           in if fl_greater (Fin word_score) current_word_prob
              then recognize_words L ms xl (Some word, Fin word_score, wp1)
              else recognize_words L ms xl (current_word, current_word_prob, wp1))
      | None \<Rightarrow> recognize_words L ms xl (current_word, current_word_prob, wp(word \<mapsto> NegInf)))"

text \<open>
  The loop over the test items: \<open>test_set\<close> is the list of
  \<^verbatim>\<open>test_set.get_item_Xlengths(n)\<close> for \<^verbatim>\<open>n in range(test_set.num_items)\<close>.
\<close>

fun recognize_items ::
  "'m lib \<Rightarrow> (string \<times> 'm) list \<Rightarrow> xlengths list
    \<Rightarrow> (string \<rightharpoonup> pyfloat) list \<times> string option list
    \<Rightarrow> (string \<rightharpoonup> pyfloat) list \<times> string option list" where
  "recognize_items L models [] (probabilities, guesses) = (probabilities, guesses)"
| "recognize_items L models (xl # items) (probabilities, guesses) =
     (case recognize_words L models xl (None, NegInf, Map.empty) of
        (current_word, current_word_prob, wp) \<Rightarrow>
          recognize_items L models items (probabilities @ [wp], guesses @ [current_word]))"

definition recognize ::
  "'m lib \<Rightarrow> (string \<times> 'm) list \<Rightarrow> xlengths list
    \<Rightarrow> (string \<rightharpoonup> pyfloat) list \<times> string option list" where
  "recognize L models test_set = recognize_items L models test_set ([], [])"

section \<open>The criteria in the specification's words\<close>

text \<open>
  The Bayesian information criterion as the specification states it:
  \<open>BIC = -2 * logL + p * ln N\<close> with \<open>p = n * (n - 1) + 2 * F * n\<close>, \<open>F\<close> the number of
  features (the length of a frame) and \<open>N\<close> the number of frames of the word.
\<close>

definition spec_BIC :: "selector \<Rightarrow> int \<Rightarrow> real \<Rightarrow> real" where
  "spec_BIC sel n logL =
     (let F = int (length (hd (self_X sel)));
          N = real (length (self_X sel));
          p = n * (n - 1) + 2 * F * n
      in - 2 * logL + real_of_int p * ln N)"

text \<open>
  Cross-validation in the specification's words: the held-out log-likelihoods of the folds
  on which both the training on the held-in part and the scoring of the held-out part
  succeeded, and their average.
\<close>

definition spec_cv_scores :: "'m lib \<Rightarrow> selector \<Rightarrow> int \<Rightarrow> real list" where
  "spec_cv_scores L sel n =
     List.map_filter
       (\<lambda>(train, test). case fit L n (random_state sel) train of
                           None \<Rightarrow> None
                         | Some m \<Rightarrow> score L m test)
       (kfold L spl (sequences sel))"

definition spec_cv_average :: "'m lib \<Rightarrow> selector \<Rightarrow> int \<Rightarrow> real" where
  "spec_cv_average L sel n = sum_list (spec_cv_scores L sel n) / real (length (spec_cv_scores L sel n))"

text \<open>
  A cache entry as the specification describes it: a model with its log-likelihood, or
  the failure sentinel (no model, negative infinity). \<open>prepare\<close> writes no other entry.
\<close>

definition cache_ok :: "'m cache \<Rightarrow> bool" where
  "cache_ok dict = (\<forall>k e. dict k = Some e \<longrightarrow> e = (None, NegInf) \<or> (\<exists>m s. e = (Some m, Fin s)))"

definition cache_ok_state :: "'m process \<Rightarrow> bool" where
  "cache_ok_state st = (case result_dict st of None \<Rightarrow> True | Some dict \<Rightarrow> cache_ok dict)"

text \<open>
  The discriminative information criterion in the specification's words:
  \<open>DIC(n) = logL(target, n) - mean (logL(other, n))\<close> over the words other than the target
  whose entry at \<open>n\<close> is not the failure sentinel. It is defined (\<open>Some\<close>) when the target
  word has a model at \<open>n\<close>, every word has an entry at \<open>n\<close> and the mean is taken over at
  least one word.
\<close>

definition spec_DIC_others :: "'m cache \<Rightarrow> selector \<Rightarrow> int \<Rightarrow> real list" where
  "spec_DIC_others dict sel n =
     List.map_filter (\<lambda>w. case dict (w, n) of Some (Some m, Fin s) \<Rightarrow> Some s | _ \<Rightarrow> None)
       (filter (\<lambda>w. w \<noteq> this_word sel) (map fst (words sel)))"

definition spec_DIC :: "'m cache \<Rightarrow> selector \<Rightarrow> int \<Rightarrow> real option" where
  "spec_DIC dict sel n =
     (case dict (this_word sel, n) of
        Some (Some m, Fin s) \<Rightarrow>
          (let os = spec_DIC_others dict sel n
           in if list_all (\<lambda>w. dict (w, n) \<noteq> None) (map fst (words sel)) \<and> os \<noteq> []
              then Some (s - sum_list os / real (length os))
              else None)
      | _ \<Rightarrow> None)"

section \<open>Example inputs\<close>

text \<open>Concrete trainers and inputs, on which the theorems below are instantiated. A model
  of these trainers is a natural number.\<close>

definition failing_lib :: "nat lib" where
  "failing_lib = \<lparr>fit = (\<lambda>n seed xl. None), score = (\<lambda>m xl. None), kfold = (\<lambda>k seqs. [])\<rparr>"

definition demo_lib :: "nat lib" where
  "demo_lib = \<lparr>fit = (\<lambda>n seed xl. if n < 2 then None else Some (nat n)),
               score = (\<lambda>m xl. if m = 0 then None else Some (- real m)),
               kfold = (\<lambda>k seqs. [])\<rparr>"

definition peak_lib :: "nat lib" where
  "peak_lib = \<lparr>fit = (\<lambda>n seed xl. if n < 2 then None else Some (nat n)),
               score = (\<lambda>m xl. Some (if m = 3 \<or> m = 4 then 0 else - 1)),
               kfold = (\<lambda>k seqs. [])\<rparr>"

definition demo_sel :: selector where
  "demo_sel = \<lparr>words = [(''A'', [[[0]]]), (''B'', [[[1]]])],
                hwords = [''A'' \<mapsto> ([[0]], [1]), ''B'' \<mapsto> ([[1]], [1])],
                sequences = [[[0]]], self_X = [[0]], self_lengths = [1], this_word = ''A'',
                this_word_is_key = True,
                n_constant = 3, min_n_components = 1, max_n_components = 4, random_state = 14\<rparr>"

definition fresh_process :: "nat process" where
  "fresh_process = \<lparr>result_dict = None, fit_calls = []\<rparr>"

text \<open>A trainer for cross-validation: three sequences are split leave-one-out, as
  \<^verbatim>\<open>KFold(3)\<close> does; scoring a two-state model on the third sequence fails.\<close>

definition cv_lib :: "nat lib" where
  "cv_lib = \<lparr>fit = (\<lambda>n seed xl. if n < 2 then None else Some (nat n)),
             score = (\<lambda>m xl. if m = 2 \<and> fst xl = [[2]] then None
                             else Some (if m = 3 \<or> m = 4 then 0 else - 1)),
             kfold = (\<lambda>k seqs. case seqs of
                        [a, b, c] \<Rightarrow> [((b @ c, [length b, length c]), (a, [length a])),
                                      ((a @ c, [length a, length c]), (b, [length b])),
                                      ((a @ b, [length a, length b]), (c, [length c]))]
                      | _ \<Rightarrow> [])\<rparr>"

definition cv_sel :: selector where
  "cv_sel = \<lparr>words = [(''A'', [[[0]], [[1]], [[2]]])],
              hwords = [''A'' \<mapsto> ([[0], [1], [2]], [1, 1, 1])],
              sequences = [[[0]], [[1]], [[2]]], self_X = [[0], [1], [2]], self_lengths = [1, 1, 1],
              this_word = ''A'', this_word_is_key = True, n_constant = 3, min_n_components = 1,
              max_n_components = 4, random_state = 14\<rparr>"

text \<open>A trainer for the discriminative criterion: word \<open>''A''\<close> (data \<open>[[0]]\<close>) scores 0
  at every state count, the other word scores -1, and -5 with three states.\<close>

definition dic_lib :: "nat lib" where
  "dic_lib = \<lparr>fit = (\<lambda>n seed xl. if n < 2 then None else Some (nat n)),
              score = (\<lambda>m xl. Some (if fst xl = [[0]] then 0 else if m = 3 then - 5 else - 1)),
              kfold = (\<lambda>k seqs. [])\<rparr>"

definition demo_cache :: "nat cache" where
  "demo_cache = [(''A'', 1) \<mapsto> (None, NegInf), (''B'', 1) \<mapsto> (None, NegInf),
                 (''A'', 2) \<mapsto> (Some 2, Fin 0), (''B'', 2) \<mapsto> (Some 2, Fin (- 1)),
                 (''A'', 3) \<mapsto> (Some 3, Fin 0), (''B'', 3) \<mapsto> (Some 3, Fin (- 5)),
                 (''A'', 4) \<mapsto> (Some 4, Fin 0), (''B'', 4) \<mapsto> (Some 4, Fin (- 1))]"

text \<open>The process after \<open>select_DIC dic_lib cv_sel\<close> on a fresh process: the corpus of
  \<open>cv_sel\<close> has the single word \<open>''A''\<close>, so no candidate has a DIC and the fallback model is
  trained.\<close>

definition single_cache :: "nat cache" where
  "single_cache = [(''A'', 1) \<mapsto> (None, NegInf), (''A'', 2) \<mapsto> (Some 2, Fin (- 1)),
                   (''A'', 3) \<mapsto> (Some 3, Fin (- 5)), (''A'', 4) \<mapsto> (Some 4, Fin (- 1))]"

definition after_first :: "nat process" where
  "after_first = \<lparr>result_dict = Some single_cache,
                  fit_calls = [(1, ([[0], [1], [2]], [1, 1, 1])), (2, ([[0], [1], [2]], [1, 1, 1])),
                               (3, ([[0], [1], [2]], [1, 1, 1])), (4, ([[0], [1], [2]], [1, 1, 1])),
                               (3, ([[0], [1], [2]], [1, 1, 1]))]\<rparr>"

text \<open>A selector like \<open>demo_sel\<close> with the range 2..3, and the process after its
  \<open>select_DIC\<close> with \<open>dic_lib\<close> on a fresh process.\<close>

definition narrow_sel :: selector where
  "narrow_sel = demo_sel\<lparr>min_n_components := 2, max_n_components := 3\<rparr>"

definition narrow_cache :: "nat cache" where
  "narrow_cache = [(''A'', 2) \<mapsto> (Some 2, Fin 0), (''B'', 2) \<mapsto> (Some 2, Fin (- 1)),
                   (''A'', 3) \<mapsto> (Some 3, Fin 0), (''B'', 3) \<mapsto> (Some 3, Fin (- 5))]"

definition narrow_state :: "nat process" where
  "narrow_state = \<lparr>result_dict = Some narrow_cache,
                   fit_calls = [(2, ([[0]], [1])), (2, ([[1]], [1])),
                                (3, ([[0]], [1])), (3, ([[1]], [1]))]\<rparr>"

text \<open>
  A corpus of two words where \<open>''BOOK''\<close> cannot be trained with two states, and a selector
  for \<open>''FISH''\<close> built with a string equal to the key \<open>''FISH''\<close> that is another object
  (for instance one read from a file or joined at run time).
\<close>

definition fish_lib :: "nat lib" where
  "fish_lib = \<lparr>fit = (\<lambda>n seed xl. if n < 2 \<or> (n = 2 \<and> fst xl = [[1]]) then None else Some (nat n)),
               score = (\<lambda>m xl. Some (if fst xl = [[1]] then 1 else 0)),
               kfold = (\<lambda>k seqs. [])\<rparr>"

definition fish_sel :: selector where
  "fish_sel = \<lparr>words = [(''FISH'', [[[0]]]), (''BOOK'', [[[1]]])],
                hwords = [''FISH'' \<mapsto> ([[0]], [1]), ''BOOK'' \<mapsto> ([[1]], [1])],
                sequences = [[[0]]], self_X = [[0]], self_lengths = [1], this_word = ''FISH'',
                this_word_is_key = False,
                n_constant = 3, min_n_components = 2, max_n_components = 3, random_state = 14\<rparr>"

definition fish_cache :: "nat cache" where
  "fish_cache = [(''FISH'', 2) \<mapsto> (Some 2, Fin 0), (''BOOK'', 2) \<mapsto> (None, NegInf),
                 (''FISH'', 3) \<mapsto> (Some 3, Fin 0), (''BOOK'', 3) \<mapsto> (Some 3, Fin 1)]"

section \<open>Properties of the comparison of floats\<close>

lemma fl_less_trans: "fl_less a b \<Longrightarrow> fl_less b c \<Longrightarrow> fl_less a c"
  by (cases a; cases b; cases c) simp_all

lemma fl_less_Fin_below: "fl_less (Fin v) b \<Longrightarrow> \<not> fl_less (Fin w) b \<Longrightarrow> v < w"
  by (cases b) simp_all

lemma fl_less_Fin_above: "fl_less b (Fin v) \<Longrightarrow> \<not> fl_less b (Fin w) \<Longrightarrow> w < v"
  by (cases b) simp_all

lemma fl_less_below: "fl_less a b \<Longrightarrow> \<not> fl_less a c \<Longrightarrow> c \<noteq> NaN \<Longrightarrow> fl_less c b"
  by (cases a; cases b; cases c) simp_all

section \<open>Properties of the recognizer\<close>

lemma recognize_words_wp:
  "snd (snd (recognize_words L ms xl (cw, cp, wp))) w =
     (if w \<in> fst ` set ms
      then Some (case score L (snd (last (filter (\<lambda>p. fst p = w) ms))) xl of None \<Rightarrow> NegInf | Some s \<Rightarrow> Fin s)
      else wp w)"
proof (induction ms arbitrary: cw cp wp)
  case Nil
  then show ?case by simp
next
  case (Cons p ms)
  obtain word word_model where p: "p = (word, word_model)" by (cases p)
  show ?case
    unfolding p
    by (auto simp: Cons.IH Let_def image_iff filter_empty_conv split: option.splits)
qed

lemma recognize_words_guess_all_fail:
  "\<forall>(w, m) \<in> set ms. score L m xl = None \<Longrightarrow>
   fst (recognize_words L ms xl (cw, cp, wp)) = cw"
  by (induction ms arbitrary: wp) auto

lemma recognize_items_eq:
  "recognize_items L models items (ps, gs) =
     (ps @ map (\<lambda>xl. snd (snd (recognize_words L models xl (None, NegInf, Map.empty)))) items,
      gs @ map (\<lambda>xl. fst (recognize_words L models xl (None, NegInf, Map.empty))) items)"
  by (induction items arbitrary: ps gs) (auto split: prod.splits)

lemma recognize_words_guess_inv:
  assumes "recognize_words L ms xl (cw, cp, wp) = (cw', cp', wp')"
  shows "((cw', cp') = (cw, cp) \<and>
          (\<forall>p\<in>set ms. \<forall>s. score L (snd p) xl = Some s \<longrightarrow> \<not> fl_less cp (Fin s))) \<or>
         (\<exists>pre w m post s. ms = pre @ (w, m) # post \<and> score L m xl = Some s \<and>
            cw' = Some w \<and> cp' = Fin s \<and> fl_less cp (Fin s) \<and>
            (\<forall>p\<in>set pre. \<forall>s'. score L (snd p) xl = Some s' \<longrightarrow> s' < s) \<and>
            (\<forall>p\<in>set post. \<forall>s'. score L (snd p) xl = Some s' \<longrightarrow> s' \<le> s))"
  using assms
proof (induction ms arbitrary: cw cp wp)
  case Nil
  then show ?case by simp
next
  case (Cons q ms)
  obtain word word_model where q: "q = (word, word_model)" by (cases q)
  show ?case
  proof (cases "\<exists>sq. score L word_model xl = Some sq \<and> fl_less cp (Fin sq)")
    case True
    then obtain sq where sq: "score L word_model xl = Some sq" "fl_less cp (Fin sq)" by blast
    with Cons.prems q
    have rec: "recognize_words L ms xl (Some word, Fin sq, wp(word \<mapsto> Fin sq)) = (cw', cp', wp')"
      by (simp add: fl_greater_def)
    from Cons.IH[OF rec] show ?thesis
    proof (elim disjE conjE exE)
      assume same: "(cw', cp') = (Some word, Fin sq)"
        and rest: "\<forall>p\<in>set ms. \<forall>s. score L (snd p) xl = Some s \<longrightarrow> \<not> fl_less (Fin sq) (Fin s)"
      have "\<forall>p\<in>set ms. \<forall>s'. score L (snd p) xl = Some s' \<longrightarrow> s' \<le> sq"
        using rest by auto
      then show ?thesis
        using sq same q
        by (intro disjI2 exI[of _ "[]"] exI[of _ word] exI[of _ word_model] exI[of _ ms] exI[of _ sq]) simp
    next
      fix pre w m post s
      assume ms: "ms = pre @ (w, m) # post" and sm: "score L m xl = Some s"
        and cw': "cw' = Some w" and cp': "cp' = Fin s" and less: "fl_less (Fin sq) (Fin s)"
        and pre: "\<forall>p\<in>set pre. \<forall>s'. score L (snd p) xl = Some s' \<longrightarrow> s' < s"
        and post: "\<forall>p\<in>set post. \<forall>s'. score L (snd p) xl = Some s' \<longrightarrow> s' \<le> s"
      have "fl_less cp (Fin s)" using sq(2) less by (rule fl_less_trans)
      moreover have "\<forall>p\<in>set (q # pre). \<forall>s'. score L (snd p) xl = Some s' \<longrightarrow> s' < s"
        using pre sq(1) less q by auto
      ultimately show ?thesis
        using ms sm cw' cp' post
        by (intro disjI2 exI[of _ "q # pre"] exI[of _ w] exI[of _ m] exI[of _ post] exI[of _ s]) simp
    qed
  next
    case False
    with Cons.prems q obtain wp1 where
      rec: "recognize_words L ms xl (cw, cp, wp1) = (cw', cp', wp')"
      by (auto simp: fl_greater_def Let_def split: option.splits if_splits)
    from Cons.IH[OF rec] show ?thesis
    proof (elim disjE conjE exE)
      assume "(cw', cp') = (cw, cp)"
        and "\<forall>p\<in>set ms. \<forall>s. score L (snd p) xl = Some s \<longrightarrow> \<not> fl_less cp (Fin s)"
      with False q show ?thesis by auto
    next
      fix pre w m post s
      assume ms: "ms = pre @ (w, m) # post" and sm: "score L m xl = Some s"
        and cw': "cw' = Some w" and cp': "cp' = Fin s" and less: "fl_less cp (Fin s)"
        and pre: "\<forall>p\<in>set pre. \<forall>s'. score L (snd p) xl = Some s' \<longrightarrow> s' < s"
        and post: "\<forall>p\<in>set post. \<forall>s'. score L (snd p) xl = Some s' \<longrightarrow> s' \<le> s"
      have "\<forall>p\<in>set (q # pre). \<forall>s'. score L (snd p) xl = Some s' \<longrightarrow> s' < s"
        using pre False less q fl_less_Fin_above by auto
      then show ?thesis
        using ms sm cw' cp' post less
        by (intro disjI2 exI[of _ "q # pre"] exI[of _ w] exI[of _ m] exI[of _ post] exI[of _ s]) simp
    qed
  qed
qed

lemma recognize_words_best:
  assumes "\<exists>(w, m) \<in> set models. score L m xl \<noteq> None"
  shows "\<exists>k<length models. \<exists>s.
           fst (recognize_words L models xl (None, NegInf, Map.empty)) = Some (fst (models ! k)) \<and>
           score L (snd (models ! k)) xl = Some s \<and>
           (\<forall>j<length models. \<forall>s'. score L (snd (models ! j)) xl = Some s' \<longrightarrow>
              s' \<le> s \<and> (j < k \<longrightarrow> s' < s))"
proof -
  obtain cw' cp' wp' where r: "recognize_words L models xl (None, NegInf, Map.empty) = (cw', cp', wp')"
    by (metis surj_pair)
  from assms obtain p0 s0 where p0: "p0 \<in> set models" "score L (snd p0) xl = Some s0" by force
  have "fl_less NegInf (Fin s0)" by simp
  with recognize_words_guess_inv[OF r] p0
  obtain pre w m post s where d: "models = pre @ (w, m) # post" "score L m xl = Some s"
    "cw' = Some w"
    "\<forall>p\<in>set pre. \<forall>s'. score L (snd p) xl = Some s' \<longrightarrow> s' < s"
    "\<forall>p\<in>set post. \<forall>s'. score L (snd p) xl = Some s' \<longrightarrow> s' \<le> s"
    by fastforce
  let ?k = "length pre"
  have k: "?k < length models" "models ! ?k = (w, m)" using d(1) by simp_all
  have best: "s' \<le> s \<and> (j < ?k \<longrightarrow> s' < s)"
    if j: "j < length models" and sj: "score L (snd (models ! j)) xl = Some s'" for j s'
  proof -
    consider "j < ?k" | "j = ?k" | "?k < j" by linarith
    then show ?thesis
    proof cases
      case 1
      then have "models ! j \<in> set pre" using d(1) by (simp add: nth_append)
      with d(4) sj have "s' < s" by blast
      then show ?thesis by simp
    next
      case 2
      with sj k(2) d(2) show ?thesis by simp
    next
      case 3
      then have "models ! j = post ! (j - ?k - 1)" using d(1) by (simp add: nth_append)
      moreover have "j - ?k - 1 < length post" using 3 j d(1) by simp
      ultimately have "models ! j \<in> set post" by simp
      with d(5) sj 3 show ?thesis by auto
    qed
  qed
  show ?thesis
    using k r d(2,3) best by (intro exI[of _ ?k] exI[of _ s]) simp
qed

lemma last_filter_distinct:
  "distinct (map fst ms) \<Longrightarrow> (w, m) \<in> set ms \<Longrightarrow> last (filter (\<lambda>p. fst p = w) ms) = (w, m)"
  by (induction ms) (auto simp: filter_empty_conv image_iff)

text \<open>
  Claim C8. For a models dictionary (its keys are distinct) and a test set, \<open>recognize\<close>
  returns two lists as long as the test set; the score table at index \<open>i\<close> is the one of the
  \<open>i\<close>-th test item: its keys are exactly the words of the models dictionary, and a word's
  entry is the score of its model on that item, or negative infinity when the scoring failed.
  The label at index \<open>i\<close> is the best guess for the \<open>i\<close>-th item: \<^verbatim>\<open>None\<close> when no model
  scores the item, and otherwise the word of the first model (in the dictionary's order)
  whose score on the item is maximal.
\<close>

theorem recognize_fully_populated:
  assumes "distinct (map fst models)"
  shows "length (fst (recognize L models test_set)) = length test_set \<and>
         length (snd (recognize L models test_set)) = length test_set \<and>
         (\<forall>i<length test_set.
            dom (fst (recognize L models test_set) ! i) = fst ` set models \<and>
            (\<forall>(w, m) \<in> set models.
               (fst (recognize L models test_set) ! i) w =
                 Some (case score L m (test_set ! i) of None \<Rightarrow> NegInf | Some s \<Rightarrow> Fin s)) \<and>
            ((\<forall>(w, m) \<in> set models. score L m (test_set ! i) = None) \<longrightarrow>
               snd (recognize L models test_set) ! i = None) \<and>
            ((\<exists>(w, m) \<in> set models. score L m (test_set ! i) \<noteq> None) \<longrightarrow>
               (\<exists>k<length models. \<exists>s.
                  snd (recognize L models test_set) ! i = Some (fst (models ! k)) \<and>
                  score L (snd (models ! k)) (test_set ! i) = Some s \<and>
                  (\<forall>j<length models. \<forall>s'.
                     score L (snd (models ! j)) (test_set ! i) = Some s' \<longrightarrow>
                     s' \<le> s \<and> (j < k \<longrightarrow> s' < s)))))"
proof -
  have dom: "dom (snd (snd (recognize_words L models xl (None, NegInf, Map.empty)))) = fst ` set models" for xl
    by (auto simp: dom_def recognize_words_wp split: if_splits)
  have val: "snd (snd (recognize_words L models xl (None, NegInf, Map.empty))) w =
      Some (case score L m xl of None \<Rightarrow> NegInf | Some s \<Rightarrow> Fin s)"
    if "(w, m) \<in> set models" for xl w m
    using that assms by (force simp: recognize_words_wp last_filter_distinct)
  have tables: "dom (fst (recognize L models test_set) ! i) = fst ` set models \<and>
            (\<forall>(w, m) \<in> set models.
               (fst (recognize L models test_set) ! i) w =
                 Some (case score L m (test_set ! i) of None \<Rightarrow> NegInf | Some s \<Rightarrow> Fin s))"
    if "i < length test_set" for i
  proof -
    have "fst (recognize L models test_set) ! i =
        snd (snd (recognize_words L models (test_set ! i) (None, NegInf, Map.empty)))"
      using that by (simp add: recognize_def recognize_items_eq)
    then show ?thesis
      using dom[of "test_set ! i"] val[of _ _ "test_set ! i"] by fastforce
  qed
  have guess: "snd (recognize L models test_set) ! i =
        fst (recognize_words L models (test_set ! i) (None, NegInf, Map.empty))"
    if "i < length test_set" for i
    using that by (simp add: recognize_def recognize_items_eq)
  have none: "snd (recognize L models test_set) ! i = None"
    if "i < length test_set" and "\<forall>(w, m) \<in> set models. score L m (test_set ! i) = None" for i
    using guess[OF that(1)] recognize_words_guess_all_fail[OF that(2), of None NegInf Map.empty]
    by simp
  have best: "\<exists>k<length models. \<exists>s.
                  snd (recognize L models test_set) ! i = Some (fst (models ! k)) \<and>
                  score L (snd (models ! k)) (test_set ! i) = Some s \<and>
                  (\<forall>j<length models. \<forall>s'.
                     score L (snd (models ! j)) (test_set ! i) = Some s' \<longrightarrow>
                     s' \<le> s \<and> (j < k \<longrightarrow> s' < s))"
    if "i < length test_set" and "\<exists>(w, m) \<in> set models. score L m (test_set ! i) \<noteq> None" for i
    using recognize_words_best[OF that(2)] guess[OF that(1)] by simp
  have len: "length (fst (recognize L models test_set)) = length test_set"
    "length (snd (recognize L models test_set)) = length test_set"
    by (simp_all add: recognize_def recognize_items_eq)
  show ?thesis
  proof (intro conjI allI impI)
    show "length (fst (recognize L models test_set)) = length test_set" by (rule len(1))
    show "length (snd (recognize L models test_set)) = length test_set" by (rule len(2))
  next
    fix i assume "i < length test_set"
    from tables[OF this] show "dom (fst (recognize L models test_set) ! i) = fst ` set models"
      by (rule conjunct1)
  next
    fix i assume "i < length test_set"
    from tables[OF this] show "\<forall>(w, m) \<in> set models.
               (fst (recognize L models test_set) ! i) w =
                 Some (case score L m (test_set ! i) of None \<Rightarrow> NegInf | Some s \<Rightarrow> Fin s)"
      by (rule conjunct2)
  next
    fix i assume "i < length test_set" "\<forall>(w, m) \<in> set models. score L m (test_set ! i) = None"
    then show "snd (recognize L models test_set) ! i = None" by (rule none)
  next
    fix i assume "i < length test_set" "\<exists>(w, m) \<in> set models. score L m (test_set ! i) \<noteq> None"
    then show "\<exists>k<length models. \<exists>s.
                  snd (recognize L models test_set) ! i = Some (fst (models ! k)) \<and>
                  score L (snd (models ! k)) (test_set ! i) = Some s \<and>
                  (\<forall>j<length models. \<forall>s'.
                     score L (snd (models ! j)) (test_set ! i) = Some s' \<longrightarrow>
                     s' \<le> s \<and> (j < k \<longrightarrow> s' < s))"
      by (rule best)
  qed
qed

theorem recognize_fully_populated_witness:
  "distinct (map fst [(''A'', 0::nat), (''B'', 2), (''C'', 1)]) \<and>
   length (fst (recognize demo_lib [(''A'', 0), (''B'', 2), (''C'', 1)] [([], []), ([[1]], [1])])) = 2 \<and>
   length (snd (recognize demo_lib [(''A'', 0), (''B'', 2), (''C'', 1)] [([], []), ([[1]], [1])])) = 2 \<and>
   dom (fst (recognize demo_lib [(''A'', 0), (''B'', 2), (''C'', 1)] [([], []), ([[1]], [1])]) ! 1) =
     {''A'', ''B'', ''C''} \<and>
   (fst (recognize demo_lib [(''A'', 0), (''B'', 2), (''C'', 1)] [([], []), ([[1]], [1])]) ! 1) ''A'' =
     Some NegInf \<and>
   (fst (recognize demo_lib [(''A'', 0), (''B'', 2), (''C'', 1)] [([], []), ([[1]], [1])]) ! 1) ''B'' =
     Some (Fin (- 2)) \<and>
   snd (recognize demo_lib [(''A'', 0), (''B'', 2), (''C'', 1)] [([], []), ([[1]], [1])]) ! 1 = Some ''C''"
proof -
  let ?M = "[(''A'', 0::nat), (''B'', 2), (''C'', 1)]"
  let ?T = "[([], []), ([[1]], [1])] :: xlengths list"
  have d: "distinct (map fst ?M)" by simp
  have i: "(1::nat) < length ?T" by simp
  note t = recognize_fully_populated[OF d, of demo_lib ?T]
  from t have l: "length (fst (recognize demo_lib ?M ?T)) = 2" "length (snd (recognize demo_lib ?M ?T)) = 2"
    by simp_all
  from t i have i1: "dom (fst (recognize demo_lib ?M ?T) ! 1) = fst ` set ?M \<and>
     (\<forall>(w, m) \<in> set ?M. (fst (recognize demo_lib ?M ?T) ! 1) w =
           Some (case score demo_lib m (?T ! 1) of None \<Rightarrow> NegInf | Some s \<Rightarrow> Fin s))"
    by blast
  from i1 have a: "dom (fst (recognize demo_lib ?M ?T) ! 1) = {''A'', ''B'', ''C''}"
    by auto
  from i1 have b: "(fst (recognize demo_lib ?M ?T) ! 1) ''A'' = Some NegInf"
    by (simp add: demo_lib_def)
  from i1 have c: "(fst (recognize demo_lib ?M ?T) ! 1) ''B'' = Some (Fin (- 2))"
    by (simp add: demo_lib_def)
  have ex: "\<exists>(w, m) \<in> set ?M. score demo_lib m (?T ! 1) \<noteq> None"
    by (simp add: demo_lib_def)
  from t i ex obtain k s where k: "k < length ?M"
    "snd (recognize demo_lib ?M ?T) ! 1 = Some (fst (?M ! k))"
    "score demo_lib (snd (?M ! k)) (?T ! 1) = Some s"
    "\<forall>j<length ?M. \<forall>s'. score demo_lib (snd (?M ! j)) (?T ! 1) = Some s' \<longrightarrow> s' \<le> s \<and> (j < k \<longrightarrow> s' < s)"
    by blast
  from k(1) have "k = 0 \<or> k = 1 \<or> k = 2" by auto
  then have "k = 2"
  proof (elim disjE)
    assume "k = 0"
    with k(3) show ?thesis by (simp add: demo_lib_def)
  next
    assume k1: "k = 1"
    with k(3) have "s = - 2" by (simp add: demo_lib_def)
    moreover have "score demo_lib (snd (?M ! 2)) (?T ! 1) = Some (- 1)" by (simp add: demo_lib_def)
    moreover have "(2::nat) < length ?M" by simp
    ultimately have "(- 1 :: real) \<le> - 2" using k(4) by blast
    then show ?thesis by simp
  qed simp
  with k(2) have g: "snd (recognize demo_lib ?M ?T) ! 1 = Some ''C''" by simp
  from d l a b c g show ?thesis by blast
qed

text \<open>
  Claim C1, as amended. When every model fails to score the \<open>i\<close>-th test item, its score
  table holds negative infinity for every word of the models dictionary, and its best guess
  is \<^verbatim>\<open>None\<close>: no comparison is made on a failure, so \<open>current_word\<close> keeps its initial
  value.
\<close>

theorem recognize_all_fail:
  assumes "i < length test_set"
    and "\<forall>(w, m) \<in> set models. score L m (test_set ! i) = None"
  shows "fst (recognize L models test_set) ! i =
           (\<lambda>w. if w \<in> fst ` set models then Some NegInf else None) \<and>
         snd (recognize L models test_set) ! i = None"
proof -
  have "snd (snd (recognize_words L models (test_set ! i) (None, NegInf, Map.empty))) w =
          (if w \<in> fst ` set models then Some NegInf else None)" for w
  proof (cases "w \<in> fst ` set models")
    case True
    then have ne: "filter (\<lambda>p. fst p = w) models \<noteq> []"
      by (auto simp: filter_empty_conv)
    then have "last (filter (\<lambda>p. fst p = w) models) \<in> set (filter (\<lambda>p. fst p = w) models)"
      by (rule last_in_set)
    then have "last (filter (\<lambda>p. fst p = w) models) \<in> set models" by simp
    with assms(2) have "score L (snd (last (filter (\<lambda>p. fst p = w) models))) (test_set ! i) = None"
      by (cases "last (filter (\<lambda>p. fst p = w) models)") auto
    with True show ?thesis by (simp add: recognize_words_wp)
  next
    case False
    then show ?thesis by (simp add: recognize_words_wp)
  qed
  then have "snd (snd (recognize_words L models (test_set ! i) (None, NegInf, Map.empty))) =
          (\<lambda>w. if w \<in> fst ` set models then Some NegInf else None)" by (rule ext)
  with assms recognize_words_guess_all_fail[OF assms(2), of None NegInf Map.empty]
  show ?thesis
    by (simp add: recognize_def recognize_items_eq)
qed

theorem recognize_all_fail_witness:
  "(0::nat) < length [([], []) :: xlengths] \<and>
   score failing_lib 0 ([([], [])] ! 0) = None \<and> score failing_lib 1 ([([], [])] ! 0) = None \<and>
   fst (recognize failing_lib [(''A'', 0), (''B'', 1)] [([], [])]) ! 0 =
      (\<lambda>w. if w \<in> fst ` set [(''A'', 0::nat), (''B'', 1)] then Some NegInf else None) \<and>
   snd (recognize failing_lib [(''A'', 0), (''B'', 1)] [([], [])]) ! 0 = None"
proof -
  have h1: "(0::nat) < length [([], []) :: xlengths]" by simp
  have h2: "\<forall>(w, m) \<in> set [(''A'', 0::nat), (''B'', 1)]. score failing_lib m ([([], [])] ! 0) = None"
    by (simp add: failing_lib_def)
  from recognize_all_fail[OF h1 h2] h1 show ?thesis
    by (simp add: failing_lib_def)
qed

text \<open>
  The claim as stated fails: with two words whose models both fail, the guess is
  \<^verbatim>\<open>None\<close>, not the first word \<open>''A''\<close>.
\<close>

theorem recognize_all_fail_counterexample:
  "score failing_lib 0 ([], []) = None \<and> score failing_lib 1 ([], []) = None \<and>
   recognize failing_lib [(''A'', 0), (''B'', 1)] [([], [])] =
     ([[''A'' \<mapsto> NegInf, ''B'' \<mapsto> NegInf]], [None]) \<and>
   snd (recognize failing_lib [(''A'', 0), (''B'', 1)] [([], [])]) \<noteq> [Some ''A'']"
  by (simp add: failing_lib_def recognize_def)

section \<open>Properties of SelectorBIC\<close>

lemma base_model_fst [simp]:
  "fst (base_model L sel n st) = fit L n (random_state sel) (self_X sel, self_lengths sel)"
  by (simp add: base_model_def gaussian_fit_def)

lemma bic_loop_inv:
  assumes "bic_loop L sel ns (ms, mm) st = ((ms', mm'), st')"
  shows "((ms', mm') = (ms, mm) \<and>
          (\<forall>j\<in>set ns. \<forall>v. bic_score L sel j (fit L j (random_state sel) (self_X sel, self_lengths sel)) = Some v
              \<longrightarrow> \<not> fl_less (Fin v) ms)) \<or>
         (\<exists>pre k post v. ns = pre @ k # post \<and>
            bic_score L sel k (fit L k (random_state sel) (self_X sel, self_lengths sel)) = Some v \<and>
            ms' = Fin v \<and> mm' = fit L k (random_state sel) (self_X sel, self_lengths sel) \<and>
            fl_less (Fin v) ms \<and>
            (\<forall>j\<in>set pre. \<forall>v'. bic_score L sel j (fit L j (random_state sel) (self_X sel, self_lengths sel)) = Some v'
               \<longrightarrow> v < v') \<and>
            (\<forall>j\<in>set post. \<forall>v'. bic_score L sel j (fit L j (random_state sel) (self_X sel, self_lengths sel)) = Some v'
               \<longrightarrow> v \<le> v'))"
  using assms
proof (induction ns arbitrary: ms mm st)
  case Nil
  then show ?case by simp
next
  case (Cons n ns)
  let ?c = "\<lambda>j. bic_score L sel j (fit L j (random_state sel) (self_X sel, self_lengths sel))"
  obtain model st1 where bm: "base_model L sel n st = (model, st1)" by (cases "base_model L sel n st")
  then have model: "model = fit L n (random_state sel) (self_X sel, self_lengths sel)"
    using base_model_fst[of L sel n st] by simp
  show ?case
  proof (cases "\<exists>v. ?c n = Some v \<and> fl_less (Fin v) ms")
    case True
    then obtain vn where vn: "?c n = Some vn" "fl_less (Fin vn) ms" by blast
    with Cons.prems bm model
    have rec: "bic_loop L sel ns (Fin vn, model) st1 = ((ms', mm'), st')" by simp
    from Cons.IH[OF rec] show ?thesis
    proof (elim disjE conjE exE)
      assume same: "(ms', mm') = (Fin vn, model)"
        and rest: "\<forall>j\<in>set ns. \<forall>v. ?c j = Some v \<longrightarrow> \<not> fl_less (Fin v) (Fin vn)"
      have "n # ns = [] @ n # ns" by simp
      moreover have "\<forall>j\<in>set ns. \<forall>v'. ?c j = Some v' \<longrightarrow> vn \<le> v'"
        using rest by auto
      ultimately show ?thesis
        using vn same model
        by (intro disjI2 exI[of _ "[]"] exI[of _ n] exI[of _ ns] exI[of _ vn]) simp
    next
      fix pre k post v
      assume ns: "ns = pre @ k # post" and ck: "?c k = Some v" and ms': "ms' = Fin v"
        and mm': "mm' = fit L k (random_state sel) (self_X sel, self_lengths sel)"
        and less: "fl_less (Fin v) (Fin vn)"
        and pre: "\<forall>j\<in>set pre. \<forall>v'. ?c j = Some v' \<longrightarrow> v < v'"
        and post: "\<forall>j\<in>set post. \<forall>v'. ?c j = Some v' \<longrightarrow> v \<le> v'"
      have "n # ns = (n # pre) @ k # post" using ns by simp
      moreover have "fl_less (Fin v) ms" using less vn(2) by (rule fl_less_trans)
      moreover have "\<forall>j\<in>set (n # pre). \<forall>v'. ?c j = Some v' \<longrightarrow> v < v'"
        using pre vn(1) less by auto
      ultimately show ?thesis
        using ck ms' mm' post
        by (intro disjI2 exI[of _ "n # pre"] exI[of _ k] exI[of _ post] exI[of _ v]) simp
    qed
  next
    case False
    with Cons.prems bm model
    have rec: "bic_loop L sel ns (ms, mm) st1 = ((ms', mm'), st')"
      by (auto split: option.splits if_splits)
    from Cons.IH[OF rec] show ?thesis
    proof (elim disjE conjE exE)
      assume "(ms', mm') = (ms, mm)"
        and "\<forall>j\<in>set ns. \<forall>v. ?c j = Some v \<longrightarrow> \<not> fl_less (Fin v) ms"
      with False show ?thesis by auto
    next
      fix pre k post v
      assume ns: "ns = pre @ k # post" and ck: "?c k = Some v" and ms': "ms' = Fin v"
        and mm': "mm' = fit L k (random_state sel) (self_X sel, self_lengths sel)"
        and less: "fl_less (Fin v) ms"
        and pre: "\<forall>j\<in>set pre. \<forall>v'. ?c j = Some v' \<longrightarrow> v < v'"
        and post: "\<forall>j\<in>set post. \<forall>v'. ?c j = Some v' \<longrightarrow> v \<le> v'"
      have "n # ns = (n # pre) @ k # post" using ns by simp
      moreover have "\<forall>j\<in>set (n # pre). \<forall>v'. ?c j = Some v' \<longrightarrow> v < v'"
        using pre False less fl_less_Fin_below by auto
      ultimately show ?thesis
        using ck ms' mm' post less
        by (intro disjI2 exI[of _ "n # pre"] exI[of _ k] exI[of _ post] exI[of _ v]) simp
    qed
  qed
qed

lemma upto_split_before:
  assumes "[a..b] = pre @ k # post" and "j \<in> {a..b}" and "j < k"
  shows "j \<in> set pre"
proof -
  have s: "sorted (pre @ k # post)" using assms(1) sorted_upto[of a b] by simp
  have "j \<in> set (pre @ k # post)" using assms(1,2) set_upto[of a b] by simp
  moreover have "\<forall>x\<in>set post. k \<le> x" using s by (simp add: sorted_append)
  ultimately show ?thesis using assms(3) by auto
qed

lemma bic_score_Some:
  assumes "self_X sel \<noteq> []"
  shows "bic_score L sel n model = Some v \<longleftrightarrow>
    (\<exists>m logL. model = Some m \<and> score L m (self_X sel, self_lengths sel) = Some logL \<and>
       v = spec_BIC sel n logL)"
  using assms by (cases "self_X sel") (auto simp: bic_score_def spec_BIC_def Let_def split: option.splits)

text \<open>
  Claim C3. On a word with at least one frame: for every candidate \<open>n\<close> whose training
  and scoring succeed, the value \<open>bic_score\<close> computes is the specification's BIC; and when
  some candidate of the range succeeds, \<open>select_BIC\<close> returns the model trained at a state
  count \<open>k\<close> of the range whose BIC is minimal among all succeeding candidates and strictly
  smaller than the BIC of every succeeding candidate before \<open>k\<close> (the first minimum wins).
  Failing candidates do not end the search: the minimum ranges over the whole range.
\<close>

theorem select_BIC_minimal:
  assumes X: "self_X sel \<noteq> []"
  shows "(\<forall>n m logL.
            fit L n (random_state sel) (self_X sel, self_lengths sel) = Some m \<and>
            score L m (self_X sel, self_lengths sel) = Some logL \<longrightarrow>
            bic_score L sel n (Some m) = Some (spec_BIC sel n logL)) \<and>
         ((\<exists>n \<in> {min_n_components sel .. max_n_components sel}. \<exists>m logL.
             fit L n (random_state sel) (self_X sel, self_lengths sel) = Some m \<and>
             score L m (self_X sel, self_lengths sel) = Some logL) \<longrightarrow>
          (\<exists>k \<in> {min_n_components sel .. max_n_components sel}. \<exists>m logL.
             fit L k (random_state sel) (self_X sel, self_lengths sel) = Some m \<and>
             score L m (self_X sel, self_lengths sel) = Some logL \<and>
             fst (select_BIC L sel st) = Some m \<and>
             (\<forall>j \<in> {min_n_components sel .. max_n_components sel}. \<forall>m' logL'.
                fit L j (random_state sel) (self_X sel, self_lengths sel) = Some m' \<and>
                score L m' (self_X sel, self_lengths sel) = Some logL' \<longrightarrow>
                spec_BIC sel k logL \<le> spec_BIC sel j logL' \<and>
                (j < k \<longrightarrow> spec_BIC sel k logL < spec_BIC sel j logL'))))"
proof (intro conjI impI)
  show "\<forall>n m logL.
            fit L n (random_state sel) (self_X sel, self_lengths sel) = Some m \<and>
            score L m (self_X sel, self_lengths sel) = Some logL \<longrightarrow>
            bic_score L sel n (Some m) = Some (spec_BIC sel n logL)"
    using bic_score_Some[OF X, of L _ "Some _"] by blast
next
  let ?xl = "(self_X sel, self_lengths sel)"
  let ?c = "\<lambda>j. bic_score L sel j (fit L j (random_state sel) ?xl)"
  let ?R = "{min_n_components sel .. max_n_components sel}"
  assume "\<exists>n \<in> ?R. \<exists>m logL. fit L n (random_state sel) ?xl = Some m \<and> score L m ?xl = Some logL"
  then obtain n0 m0 l0 where n0: "n0 \<in> ?R" "fit L n0 (random_state sel) ?xl = Some m0"
    "score L m0 ?xl = Some l0" by blast
  then obtain v0 where v0: "?c n0 = Some v0"
    using bic_score_Some[OF X, of L n0 "Some m0"] by auto
  obtain ms' mm' st' where loop:
    "bic_loop L sel [min_n_components sel .. max_n_components sel] (PosInf, None) st = ((ms', mm'), st')"
    by (metis surj_pair)
  from bic_loop_inv[OF loop] v0 n0(1)
  obtain pre k post v where kk: "[min_n_components sel .. max_n_components sel] = pre @ k # post"
    "?c k = Some v" "mm' = fit L k (random_state sel) ?xl"
    "\<forall>j\<in>set pre. \<forall>v'. ?c j = Some v' \<longrightarrow> v < v'"
    "\<forall>j\<in>set post. \<forall>v'. ?c j = Some v' \<longrightarrow> v \<le> v'"
    by fastforce
  from kk(2) obtain m logL where m: "fit L k (random_state sel) ?xl = Some m" "score L m ?xl = Some logL"
    using bic_score_Some[OF X, of L k "fit L k (random_state sel) ?xl" v] by auto
  have kR: "k \<in> ?R"
    using kk(1) set_upto[of "min_n_components sel" "max_n_components sel"] by (metis in_set_conv_decomp)
  have sel: "fst (select_BIC L sel st) = Some m"
    using loop kk(3) m(1) by (simp add: select_BIC_def)
  have ck: "bic_score L sel k (Some m) = Some v" using kk(2) m(1) by simp
  have ckv: "v = spec_BIC sel k logL"
    using ck m(2) bic_score_Some[OF X, of L k "Some m" v] by simp
  have best: "v \<le> v' \<and> (j < k \<longrightarrow> v < v')"
    if j: "j \<in> ?R" and cj: "?c j = Some v'" for j v'
  proof -
    have jset: "j \<in> set (pre @ k # post)" using j kk(1) set_upto[of "min_n_components sel" "max_n_components sel"] by simp
    have "v \<le> v'"
    proof -
      from jset consider "j \<in> set pre" | "j = k" | "j \<in> set post" by auto
      then show ?thesis
        using kk(4,5) cj kk(2) by cases (force, simp, force)
    qed
    moreover have "v < v'" if "j < k"
      using upto_split_before[OF kk(1) j that] kk(4) cj by blast
    ultimately show ?thesis by blast
  qed
  have "\<forall>j \<in> ?R. \<forall>m' logL'.
          fit L j (random_state sel) ?xl = Some m' \<and> score L m' ?xl = Some logL' \<longrightarrow>
          spec_BIC sel k logL \<le> spec_BIC sel j logL' \<and>
          (j < k \<longrightarrow> spec_BIC sel k logL < spec_BIC sel j logL')"
  proof (intro ballI allI impI)
    fix j m' logL'
    assume j: "j \<in> ?R" and f: "fit L j (random_state sel) ?xl = Some m' \<and> score L m' ?xl = Some logL'"
    then have v': "bic_score L sel j (Some m') = Some (spec_BIC sel j logL')"
      using bic_score_Some[OF X, of L j "Some m'"] by auto
    define v' where "v' = spec_BIC sel j logL'"
    note v' = v'[folded v'_def]
    then have "?c j = Some v'" using f by simp
    from best[OF j this] show "spec_BIC sel k logL \<le> spec_BIC sel j logL' \<and>
          (j < k \<longrightarrow> spec_BIC sel k logL < spec_BIC sel j logL')"
      using ck ckv v' by (simp add: v'_def)
  qed
  with kR m sel show "\<exists>k \<in> ?R. \<exists>m logL.
             fit L k (random_state sel) ?xl = Some m \<and>
             score L m ?xl = Some logL \<and>
             fst (select_BIC L sel st) = Some m \<and>
             (\<forall>j \<in> ?R. \<forall>m' logL'.
                fit L j (random_state sel) ?xl = Some m' \<and>
                score L m' ?xl = Some logL' \<longrightarrow>
                spec_BIC sel k logL \<le> spec_BIC sel j logL' \<and>
                (j < k \<longrightarrow> spec_BIC sel k logL < spec_BIC sel j logL'))"
    by blast
qed

lemma demo_range: "[1..4] = [1, 2, 3, 4::int]"
  by (simp add: upto_rec1)

theorem select_BIC_minimal_witness:
  "self_X demo_sel \<noteq> [] \<and>
   fit peak_lib 3 (random_state demo_sel) (self_X demo_sel, self_lengths demo_sel) = Some 3 \<and>
   score peak_lib 3 (self_X demo_sel, self_lengths demo_sel) = Some 0 \<and>
   bic_score peak_lib demo_sel 3 (Some 3) = Some (spec_BIC demo_sel 3 0) \<and>
   spec_BIC demo_sel 3 0 = 0 \<and>
   fst (select_BIC peak_lib demo_sel fresh_process) = Some 3"
proof -
  have X: "self_X demo_sel \<noteq> []" by (simp add: demo_sel_def)
  have f: "fit peak_lib 3 (random_state demo_sel) (self_X demo_sel, self_lengths demo_sel) = Some 3"
    "score peak_lib 3 (self_X demo_sel, self_lengths demo_sel) = Some 0"
    by (simp_all add: peak_lib_def)
  from select_BIC_minimal[OF X, of peak_lib fresh_process] f
  have b: "bic_score peak_lib demo_sel 3 (Some 3) = Some (spec_BIC demo_sel 3 0)"
    by blast
  have v: "spec_BIC demo_sel 3 0 = 0"
    by (simp add: spec_BIC_def demo_sel_def)
  have s: "fst (select_BIC peak_lib demo_sel fresh_process) = Some 3"
    by (simp add: select_BIC_def demo_sel_def demo_range base_model_def gaussian_fit_def
        bic_score_def peak_lib_def fresh_process_def)
  from X f b v s show ?thesis by blast
qed

section \<open>Properties of SelectorCV\<close>

lemma cv_loop_too_few:
  "length (sequences sel) < spl \<Longrightarrow> cv_loop L sel ns acc st = (acc, st)"
  by (cases ns; cases acc) simp_all

text \<open>
  Claim C6. For a word with fewer than three sequences the loop over the state counts is
  left at once with the state unchanged, so no training has been recorded, and
  \<open>select_CV\<close> is the fallback \<open>base_model\<close> at \<open>n_constant\<close>: the only call of the trainer
  is the fallback's, on the word's whole data.
\<close>

theorem select_CV_too_few:
  assumes "length (sequences sel) < spl"
  shows "cv_loop L sel ns acc st = (acc, st) \<and>
         select_CV L sel st = base_model L sel (n_constant sel) st \<and>
         fit_calls (snd (select_CV L sel st)) =
           fit_calls st @ [(n_constant sel, (self_X sel, self_lengths sel))]"
  using assms
  by (simp add: cv_loop_too_few select_CV_def base_model_def gaussian_fit_def)

theorem select_CV_too_few_witness:
  "length (sequences demo_sel) < spl \<and>
   select_CV peak_lib demo_sel fresh_process =
     (Some 3, \<lparr>result_dict = None, fit_calls = [(3, ([[0]], [1]))]\<rparr>)"
proof -
  have h: "length (sequences demo_sel) < spl" by (simp add: demo_sel_def spl_def)
  from select_CV_too_few[OF h, of peak_lib "[]" "(NegInf, None, None)" fresh_process]
  have "select_CV peak_lib demo_sel fresh_process = base_model peak_lib demo_sel (n_constant demo_sel) fresh_process"
    by blast
  then show ?thesis using h
    by (simp add: base_model_def gaussian_fit_def demo_sel_def peak_lib_def fresh_process_def)
qed

lemma cv_folds_res:
  "fst (fst (cv_folds L sel n fs (res, wm) st)) =
     res @ List.map_filter
       (\<lambda>(train, test). case fit L n (random_state sel) train of
                           None \<Rightarrow> None
                         | Some m \<Rightarrow> score L m test) fs"
proof (induction fs arbitrary: res wm st)
  case Nil
  then show ?case by (simp add: List.map_filter_simps)
next
  case (Cons f fs)
  obtain train test where f: "f = (train, test)" by (cases f)
  show ?case unfolding f
    by (simp add: Cons.IH gaussian_fit_def List.map_filter_simps split: option.splits)
qed

lemma cv_folds_model:
  "snd (fst (cv_folds L sel n fs (res, wm) st)) = wm \<and> fst (fst (cv_folds L sel n fs (res, wm) st)) = res \<or>
   (\<exists>m. snd (fst (cv_folds L sel n fs (res, wm) st)) = Some m \<and>
      (\<exists>(train, test) \<in> set fs. fit L n (random_state sel) train = Some m))"
proof (induction fs arbitrary: res wm st)
  case Nil
  then show ?case by simp
next
  case (Cons f fs)
  obtain train test where f: "f = (train, test)" by (cases f)
  show ?case
  proof (cases "fit L n (random_state sel) train")
    case None
    then show ?thesis
      using Cons.IH[of res wm "st\<lparr>fit_calls := fit_calls st @ [(n, train)]\<rparr>"]
      unfolding f by (auto simp: gaussian_fit_def)
  next
    case (Some m)
    show ?thesis
    proof (cases "score L m test")
      case None
      then show ?thesis
        using Some Cons.IH[of res "Some m" "st\<lparr>fit_calls := fit_calls st @ [(n, train)]\<rparr>"]
        unfolding f by (auto simp: gaussian_fit_def)
    next
      case (Some s)
      then show ?thesis
        using \<open>fit L n (random_state sel) train = Some m\<close>
          Cons.IH[of "res @ [s]" "Some m" "st\<lparr>fit_calls := fit_calls st @ [(n, train)]\<rparr>"]
        unfolding f by (auto simp: gaussian_fit_def)
    qed
  qed
qed

lemma cv_folds_step:
  assumes "cv_folds L sel n (kfold L spl (sequences sel)) ([], wm) st = ((res, wm1), st1)"
  shows "res = spec_cv_scores L sel n"
    and "res \<noteq> [] \<Longrightarrow> \<exists>m. wm1 = Some m \<and>
           (\<exists>(train, test) \<in> set (kfold L spl (sequences sel)). fit L n (random_state sel) train = Some m)"
proof -
  show "res = spec_cv_scores L sel n"
    using cv_folds_res[of L sel n "kfold L spl (sequences sel)" "[]" wm st] assms
    by (simp add: spec_cv_scores_def)
  show "\<exists>m. wm1 = Some m \<and>
           (\<exists>(train, test) \<in> set (kfold L spl (sequences sel)). fit L n (random_state sel) train = Some m)"
    if "res \<noteq> []"
    using cv_folds_model[of L sel n "kfold L spl (sequences sel)" "[]" wm st] assms that
    by simp
qed

lemma cv_loop_inv:
  assumes "spl \<le> length (sequences sel)"
    and "cv_loop L sel ns (mc, mm, wm) st = ((mc', mm', wm'), st')"
  shows "((mc', mm') = (mc, mm) \<and>
          (\<forall>j\<in>set ns. spec_cv_scores L sel j \<noteq> [] \<longrightarrow> \<not> fl_less mc (Fin (spec_cv_average L sel j)))) \<or>
         (\<exists>pre k post m. ns = pre @ k # post \<and> spec_cv_scores L sel k \<noteq> [] \<and>
            mc' = Fin (spec_cv_average L sel k) \<and> mm' = Some m \<and>
            (\<exists>(train, test) \<in> set (kfold L spl (sequences sel)). fit L k (random_state sel) train = Some m) \<and>
            fl_less mc (Fin (spec_cv_average L sel k)) \<and>
            (\<forall>j\<in>set pre. spec_cv_scores L sel j \<noteq> [] \<longrightarrow> spec_cv_average L sel j < spec_cv_average L sel k) \<and>
            (\<forall>j\<in>set post. spec_cv_scores L sel j \<noteq> [] \<longrightarrow> spec_cv_average L sel j \<le> spec_cv_average L sel k))"
  using assms(2)
proof (induction ns arbitrary: mc mm wm st)
  case Nil
  then show ?case by simp
next
  case (Cons n ns)
  let ?F = "kfold L spl (sequences sel)"
  let ?a = "spec_cv_average L sel"
  let ?s = "spec_cv_scores L sel"
  have nl: "\<not> length (sequences sel) < spl" using assms(1) by simp
  obtain res wm1 st1 where folds: "cv_folds L sel n ?F ([], wm) st = ((res, wm1), st1)"
    by (metis surj_pair)
  note res = cv_folds_step(1)[OF folds]
  have avg: "np_average res = ?a n" by (simp add: res np_average_def spec_cv_average_def)
  show ?case
  proof (cases "?s n \<noteq> [] \<and> fl_less mc (Fin (?a n))")
    case True
    then have "res \<noteq> []" using res by simp
    from cv_folds_step(2)[OF folds this]
    obtain m where m: "wm1 = Some m" "\<exists>(train, test) \<in> set ?F. fit L n (random_state sel) train = Some m"
      by (elim exE conjE)
    from Cons.prems nl folds True res avg m(1)
    have rec: "cv_loop L sel ns (Fin (?a n), Some m, Some m) st1 = ((mc', mm', wm'), st')"
      by (simp add: fl_greater_def)
    from Cons.IH[OF rec] show ?thesis
    proof (elim disjE conjE exE)
      assume same: "(mc', mm') = (Fin (?a n), Some m)"
        and rest: "\<forall>j\<in>set ns. ?s j \<noteq> [] \<longrightarrow> \<not> fl_less (Fin (?a n)) (Fin (?a j))"
      have "\<forall>j\<in>set ns. ?s j \<noteq> [] \<longrightarrow> ?a j \<le> ?a n"
        using rest by auto
      then show ?thesis
        using True same m(2)
        by (intro disjI2 exI[of _ "[]"] exI[of _ n] exI[of _ ns] exI[of _ m]) simp
    next
      fix pre k post m2
      assume ns: "ns = pre @ k # post" and sk: "?s k \<noteq> []" and mc': "mc' = Fin (?a k)"
        and mm': "mm' = Some m2"
        and fitk: "\<exists>(train, test) \<in> set ?F. fit L k (random_state sel) train = Some m2"
        and less: "fl_less (Fin (?a n)) (Fin (?a k))"
        and pre: "\<forall>j\<in>set pre. ?s j \<noteq> [] \<longrightarrow> ?a j < ?a k"
        and post: "\<forall>j\<in>set post. ?s j \<noteq> [] \<longrightarrow> ?a j \<le> ?a k"
      have "fl_less mc (Fin (?a k))" using True less fl_less_trans by blast
      moreover have "\<forall>j\<in>set (n # pre). ?s j \<noteq> [] \<longrightarrow> ?a j < ?a k"
        using pre less by auto
      ultimately show ?thesis
        using ns sk mc' mm' fitk post
        by (intro disjI2 exI[of _ "n # pre"] exI[of _ k] exI[of _ post] exI[of _ m2]) simp
    qed
  next
    case False
    from Cons.prems nl folds False res avg
    have rec: "cv_loop L sel ns (mc, mm, wm1) st1 = ((mc', mm', wm'), st')"
      by (auto simp: fl_greater_def Let_def split: if_splits)
    from Cons.IH[OF rec] show ?thesis
    proof (elim disjE conjE exE)
      assume "(mc', mm') = (mc, mm)"
        and "\<forall>j\<in>set ns. ?s j \<noteq> [] \<longrightarrow> \<not> fl_less mc (Fin (?a j))"
      with False show ?thesis by auto
    next
      fix pre k post m2
      assume ns: "ns = pre @ k # post" and sk: "?s k \<noteq> []" and mc': "mc' = Fin (?a k)"
        and mm': "mm' = Some m2"
        and fitk: "\<exists>(train, test) \<in> set ?F. fit L k (random_state sel) train = Some m2"
        and less: "fl_less mc (Fin (?a k))"
        and pre: "\<forall>j\<in>set pre. ?s j \<noteq> [] \<longrightarrow> ?a j < ?a k"
        and post: "\<forall>j\<in>set post. ?s j \<noteq> [] \<longrightarrow> ?a j \<le> ?a k"
      have "\<forall>j\<in>set (n # pre). ?s j \<noteq> [] \<longrightarrow> ?a j < ?a k"
        using pre False less fl_less_Fin_above by auto
      then show ?thesis
        using ns sk mc' mm' fitk post less
        by (intro disjI2 exI[of _ "n # pre"] exI[of _ k] exI[of _ post] exI[of _ m2]) simp
    qed
  qed
qed

text \<open>
  Claim C7. For a word with at least three sequences: the scores collected for a candidate
  \<open>n\<close> are the held-out log-likelihoods of the folds that succeeded; and when some candidate
  of the range has a fold that succeeded, \<open>select_CV\<close> returns a model \<open>m\<close> that the trainer
  produced at a state count \<open>k\<close> of the range on the training part of one of the folds,
  where the average at \<open>k\<close> is maximal among the candidates with a fold that succeeded and
  strictly larger than the average of every such candidate before \<open>k\<close>.
\<close>

theorem select_CV_maximal:
  assumes "spl \<le> length (sequences sel)"
  shows "(\<forall>n wm st0. fst (fst (cv_folds L sel n (kfold L spl (sequences sel)) ([], wm) st0)) =
            spec_cv_scores L sel n) \<and>
         ((\<exists>n \<in> {min_n_components sel .. max_n_components sel}. spec_cv_scores L sel n \<noteq> []) \<longrightarrow>
          (\<exists>k \<in> {min_n_components sel .. max_n_components sel}. \<exists>m.
             spec_cv_scores L sel k \<noteq> [] \<and>
             fst (select_CV L sel st) = Some m \<and>
             (\<exists>(train, test) \<in> set (kfold L spl (sequences sel)).
                fit L k (random_state sel) train = Some m) \<and>
             (\<forall>j \<in> {min_n_components sel .. max_n_components sel}.
                spec_cv_scores L sel j \<noteq> [] \<longrightarrow>
                spec_cv_average L sel j \<le> spec_cv_average L sel k \<and>
                (j < k \<longrightarrow> spec_cv_average L sel j < spec_cv_average L sel k))))"
proof (intro conjI impI allI)
  fix n wm st0
  show "fst (fst (cv_folds L sel n (kfold L spl (sequences sel)) ([], wm) st0)) = spec_cv_scores L sel n"
    by (simp add: cv_folds_res spec_cv_scores_def)
next
  let ?R = "{min_n_components sel .. max_n_components sel}"
  let ?a = "spec_cv_average L sel"
  let ?s = "spec_cv_scores L sel"
  assume "\<exists>n \<in> ?R. ?s n \<noteq> []"
  then obtain n0 where n0: "n0 \<in> ?R" "?s n0 \<noteq> []" by blast
  obtain mc' mm' wm' st' where loop:
    "cv_loop L sel [min_n_components sel .. max_n_components sel] (NegInf, None, None) st = ((mc', mm', wm'), st')"
    by (metis surj_pair)
  have "fl_less NegInf (Fin (?a n0))" by simp
  with cv_loop_inv[OF assms loop] n0
  obtain pre k post m where kk: "[min_n_components sel .. max_n_components sel] = pre @ k # post"
    "?s k \<noteq> []" "mm' = Some m"
    "\<exists>(train, test) \<in> set (kfold L spl (sequences sel)). fit L k (random_state sel) train = Some m"
    "\<forall>j\<in>set pre. ?s j \<noteq> [] \<longrightarrow> ?a j < ?a k"
    "\<forall>j\<in>set post. ?s j \<noteq> [] \<longrightarrow> ?a j \<le> ?a k"
    by fastforce
  have kR: "k \<in> ?R"
    using kk(1) set_upto[of "min_n_components sel" "max_n_components sel"] by (metis in_set_conv_decomp)
  have sel: "fst (select_CV L sel st) = Some m"
    using loop kk(3) by (simp add: select_CV_def)
  have best: "?a j \<le> ?a k \<and> (j < k \<longrightarrow> ?a j < ?a k)" if j: "j \<in> ?R" and sj: "?s j \<noteq> []" for j
  proof -
    have jset: "j \<in> set (pre @ k # post)"
      using j kk(1) set_upto[of "min_n_components sel" "max_n_components sel"] by simp
    have "?a j \<le> ?a k"
    proof -
      from jset consider "j \<in> set pre" | "j = k" | "j \<in> set post" by auto
      then show ?thesis
        using kk(5,6) sj by cases (force, simp, force)
    qed
    moreover have "?a j < ?a k" if "j < k"
      using upto_split_before[OF kk(1) j that] kk(5) sj by blast
    ultimately show ?thesis by blast
  qed
  show "\<exists>k \<in> ?R. \<exists>m. ?s k \<noteq> [] \<and> fst (select_CV L sel st) = Some m \<and>
             (\<exists>(train, test) \<in> set (kfold L spl (sequences sel)).
                fit L k (random_state sel) train = Some m) \<and>
             (\<forall>j \<in> ?R. ?s j \<noteq> [] \<longrightarrow> ?a j \<le> ?a k \<and> (j < k \<longrightarrow> ?a j < ?a k))"
    using kR kk(2) sel kk(4) best by (intro bexI[of _ k] exI[of _ m]) simp_all
qed

theorem select_CV_maximal_witness:
  "spl \<le> length (sequences cv_sel) \<and>
   fst (fst (cv_folds cv_lib cv_sel 2 (kfold cv_lib spl (sequences cv_sel)) ([], None) fresh_process)) =
     spec_cv_scores cv_lib cv_sel 2 \<and>
   spec_cv_scores cv_lib cv_sel 2 = [- 1, - 1] \<and>
   spec_cv_scores cv_lib cv_sel 3 = [0, 0, 0] \<and>
   fst (select_CV cv_lib cv_sel fresh_process) = Some 3"
proof -
  have h: "spl \<le> length (sequences cv_sel)" by (simp add: cv_sel_def spl_def)
  from select_CV_maximal[OF h, of cv_lib fresh_process]
  have a: "fst (fst (cv_folds cv_lib cv_sel 2 (kfold cv_lib spl (sequences cv_sel)) ([], None) fresh_process)) =
     spec_cv_scores cv_lib cv_sel 2"
    by blast
  have b: "spec_cv_scores cv_lib cv_sel 2 = [- 1, - 1]" "spec_cv_scores cv_lib cv_sel 3 = [0, 0, 0]"
    by (simp_all add: spec_cv_scores_def cv_lib_def cv_sel_def List.map_filter_simps)
  have c: "fst (select_CV cv_lib cv_sel fresh_process) = Some 3"
    by (simp add: select_CV_def cv_sel_def demo_range spl_def gaussian_fit_def
        cv_lib_def fresh_process_def np_average_def fl_greater_def)
  from h a b c show ?thesis by blast
qed

section \<open>Properties of SelectorDIC\<close>

lemma foldl_fl_add_Fin: "foldl fl_add (Fin a) (map Fin xs) = Fin (a + sum_list xs)"
  by (induction xs arbitrary: a) (simp_all add: add.assoc)

lemma np_mean_Fin:
  "np_mean (map Fin xs) = (if xs = [] then NaN else Fin (sum_list xs / real (length xs)))"
  by (simp add: np_mean_def foldl_fl_add_Fin)

lemma others_scores_ok:
  assumes "cache_ok dict"
  shows "others_scores dict n ws =
     (if \<forall>w\<in>set ws. dict (w, n) \<noteq> None
      then Some (map Fin (List.map_filter
             (\<lambda>w. case dict (w, n) of Some (Some m, Fin s) \<Rightarrow> Some s | _ \<Rightarrow> None) ws))
      else None)"
proof (induction ws)
  case Nil
  then show ?case by (simp add: List.map_filter_simps)
next
  case (Cons w ws)
  show ?case
  proof (cases "dict (w, n)")
    case None
    then show ?thesis by simp
  next
    case (Some e)
    with assms have "e = (None, NegInf) \<or> (\<exists>m s. e = (Some m, Fin s))"
      unfolding cache_ok_def by blast
    then show ?thesis
      using Some Cons.IH by (auto simp: List.map_filter_simps)
  qed
qed

lemma dic_candidate_defined:
  assumes "cache_ok dict" and "spec_DIC dict sel n = Some v" and key: "this_word_is_key sel"
  shows "\<exists>m s. dict (this_word sel, n) = Some (Some m, Fin s) \<and>
               dic_candidate dict sel n = Some (Fin v, Some m)"
proof -
  from assms(2) obtain m s where t: "dict (this_word sel, n) = Some (Some m, Fin s)"
    by (auto simp: spec_DIC_def split: option.splits prod.splits pyfloat.splits)
  with assms(2) have all: "\<forall>w \<in> set (map fst (words sel)). dict (w, n) \<noteq> None"
    and ne: "spec_DIC_others dict sel n \<noteq> []"
    and v: "v = s - sum_list (spec_DIC_others dict sel n) / real (length (spec_DIC_others dict sel n))"
    by (auto simp: spec_DIC_def Let_def list_all_iff split: if_splits)
  have "others_scores dict n (filter (\<lambda>w. w \<noteq> this_word sel) (map fst (words sel))) =
          Some (map Fin (spec_DIC_others dict sel n))"
    using all by (simp add: others_scores_ok[OF assms(1)] spec_DIC_others_def)
  then have "dic_candidate dict sel n = Some (Fin v, Some m)"
    using t ne v key by (simp add: dic_candidate_def np_mean_Fin)
  with t show ?thesis by blast
qed

lemma dic_candidate_undefined:
  assumes "cache_ok dict" and "spec_DIC dict sel n = None"
    and "dic_candidate dict sel n = Some (x, mo)" and key: "this_word_is_key sel"
  shows "x = NaN \<or> x = NegInf"
proof -
  from assms(3) obtain cm cs where t: "dict (this_word sel, n) = Some (cm, cs)"
    by (auto simp: dic_candidate_def split: option.splits)
  let ?others = "filter (\<lambda>w. w \<noteq> this_word sel) (map fst (words sel))"
  from assms(3) t obtain scores where sc: "others_scores dict n ?others = Some scores"
    and x: "x = fl_sub cs (np_mean scores)"
    using key by (auto simp: dic_candidate_def Let_def split: option.splits)
  from sc have pres: "\<forall>w\<in>set ?others. dict (w, n) \<noteq> None"
    and scores: "scores = map Fin (spec_DIC_others dict sel n)"
    by (auto simp: others_scores_ok[OF assms(1)] spec_DIC_others_def split: if_splits)
  have all: "\<forall>w \<in> set (map fst (words sel)). dict (w, n) \<noteq> None"
    using pres t by auto
  from assms(1) t have "(cm, cs) = (None, NegInf) \<or> (\<exists>m s. (cm, cs) = (Some m, Fin s))"
    unfolding cache_ok_def by blast
  then show ?thesis
  proof
    assume "(cm, cs) = (None, NegInf)"
    then show ?thesis using x scores by (simp add: np_mean_Fin)
  next
    assume "\<exists>m s. (cm, cs) = (Some m, Fin s)"
    then obtain m s where ms: "cm = Some m" "cs = Fin s" by blast
    with assms(2) t all have "spec_DIC_others dict sel n = []"
      by (auto simp: spec_DIC_def Let_def list_all_iff split: if_splits)
    then show ?thesis using x scores ms by (simp add: np_mean_def)
  qed
qed

lemma dic_loop_inv:
  assumes "dic_loop dict sel ns (md, mm) = (md', mm')"
  shows "((md', mm') = (md, mm) \<and>
          (\<forall>j\<in>set ns. \<forall>x mo. dic_candidate dict sel j = Some (x, mo) \<longrightarrow> \<not> fl_less md x)) \<or>
         (\<exists>pre k post x. ns = pre @ k # post \<and>
            dic_candidate dict sel k = Some (x, mm') \<and> md' = x \<and> fl_less md x \<and>
            (\<forall>j\<in>set pre. \<forall>x' mo. dic_candidate dict sel j = Some (x', mo) \<longrightarrow> x' = NaN \<or> fl_less x' x) \<and>
            (\<forall>j\<in>set post. \<forall>x' mo. dic_candidate dict sel j = Some (x', mo) \<longrightarrow> \<not> fl_less x x'))"
  using assms
proof (induction ns arbitrary: md mm)
  case Nil
  then show ?case by simp
next
  case (Cons n ns)
  let ?c = "dic_candidate dict sel"
  show ?case
  proof (cases "\<exists>xn mn. ?c n = Some (xn, mn) \<and> fl_less md xn")
    case True
    then obtain xn mn where cn: "?c n = Some (xn, mn)" "fl_less md xn" by blast
    with Cons.prems have rec: "dic_loop dict sel ns (xn, mn) = (md', mm')"
      by (simp add: fl_greater_def)
    from Cons.IH[OF rec] show ?thesis
    proof (elim disjE conjE exE)
      assume same: "(md', mm') = (xn, mn)"
        and rest: "\<forall>j\<in>set ns. \<forall>x mo. ?c j = Some (x, mo) \<longrightarrow> \<not> fl_less xn x"
      show ?thesis
        using cn same rest
        by (intro disjI2 exI[of _ "[]"] exI[of _ n] exI[of _ ns] exI[of _ xn]) simp
    next
      fix pre k post x
      assume ns: "ns = pre @ k # post" and ck: "?c k = Some (x, mm')" and md': "md' = x"
        and less: "fl_less xn x"
        and pre: "\<forall>j\<in>set pre. \<forall>x' mo. ?c j = Some (x', mo) \<longrightarrow> x' = NaN \<or> fl_less x' x"
        and post: "\<forall>j\<in>set post. \<forall>x' mo. ?c j = Some (x', mo) \<longrightarrow> \<not> fl_less x x'"
      have "fl_less md x" using cn(2) less by (rule fl_less_trans)
      moreover have "\<forall>j\<in>set (n # pre). \<forall>x' mo. ?c j = Some (x', mo) \<longrightarrow> x' = NaN \<or> fl_less x' x"
        using pre cn(1) less by auto
      ultimately show ?thesis
        using ns ck md' post
        by (intro disjI2 exI[of _ "n # pre"] exI[of _ k] exI[of _ post] exI[of _ x]) simp
    qed
  next
    case False
    with Cons.prems have rec: "dic_loop dict sel ns (md, mm) = (md', mm')"
      by (auto simp: fl_greater_def split: option.splits if_splits)
    from Cons.IH[OF rec] show ?thesis
    proof (elim disjE conjE exE)
      assume "(md', mm') = (md, mm)"
        and "\<forall>j\<in>set ns. \<forall>x mo. ?c j = Some (x, mo) \<longrightarrow> \<not> fl_less md x"
      with False show ?thesis by auto
    next
      fix pre k post x
      assume ns: "ns = pre @ k # post" and ck: "?c k = Some (x, mm')" and md': "md' = x"
        and less: "fl_less md x"
        and pre: "\<forall>j\<in>set pre. \<forall>x' mo. ?c j = Some (x', mo) \<longrightarrow> x' = NaN \<or> fl_less x' x"
        and post: "\<forall>j\<in>set post. \<forall>x' mo. ?c j = Some (x', mo) \<longrightarrow> \<not> fl_less x x'"
      have "\<forall>j\<in>set (n # pre). \<forall>x' mo. ?c j = Some (x', mo) \<longrightarrow> x' = NaN \<or> fl_less x' x"
        using pre False less fl_less_below by (metis set_ConsD)
      then show ?thesis
        using ns ck md' post less
        by (intro disjI2 exI[of _ "n # pre"] exI[of _ k] exI[of _ post] exI[of _ x]) simp
    qed
  qed
qed

lemma prepare_populated: "result_dict st = Some dict \<Longrightarrow> prepare L sel st = (Inr dict, st)"
  by (simp add: prepare_def)

lemma prepare_entry_shape:
  assumes "prepare_entry L sel n xl st = (e, st1)"
  shows "(e = (None, NegInf) \<or> (\<exists>m s. e = (Some m, Fin s))) \<and>
         st1 = st\<lparr>fit_calls := fit_calls st @ [(n, xl)]\<rparr>"
  using assms
  by (auto simp: prepare_entry_def gaussian_fit_def split: option.splits)

lemma cache_ok_upd:
  "cache_ok dict \<Longrightarrow> e = (None, NegInf) \<or> (\<exists>m s. e = (Some m, Fin s)) \<Longrightarrow> cache_ok (dict(k \<mapsto> e))"
  unfolding cache_ok_def by auto

lemma prepare_words_ok:
  assumes "cache_ok d" and "cache_ok_state st" and "prepare_words L sel n ws d st = (r, st1)"
  shows "cache_ok_state st1 \<and> (\<forall>d1. r = Inr d1 \<longrightarrow> cache_ok d1)"
  using assms
proof (induction ws arbitrary: d st)
  case Nil
  then show ?case by auto
next
  case (Cons w ws)
  show ?case
  proof (cases "hwords sel w")
    case None
    with Cons.prems show ?thesis by auto
  next
    case (Some xl)
    obtain e st2 where e: "prepare_entry L sel n xl st = (e, st2)" by (metis surj_pair)
    note sh = prepare_entry_shape[OF e]
    let ?d1 = "d((w, n) \<mapsto> e)"
    have ok1: "cache_ok ?d1" using Cons.prems(1) sh by (intro cache_ok_upd) auto
    have ok2: "cache_ok_state (st2\<lparr>result_dict := Some ?d1\<rparr>)"
      using ok1 by (simp add: cache_ok_state_def)
    have "prepare_words L sel n ws ?d1 (st2\<lparr>result_dict := Some ?d1\<rparr>) = (r, st1)"
      using Cons.prems(3) Some e by (simp add: Let_def)
    from Cons.IH[OF ok1 ok2 this] show ?thesis .
  qed
qed

lemma prepare_loop_ok:
  assumes "cache_ok d" and "cache_ok_state st" and "prepare_loop L sel ns d st = (r, st1)"
  shows "cache_ok_state st1 \<and> (\<forall>d1. r = Inr d1 \<longrightarrow> cache_ok d1)"
  using assms
proof (induction ns arbitrary: d st)
  case Nil
  then show ?case by auto
next
  case (Cons n ns)
  obtain r2 st2 where w: "prepare_words L sel n (map fst (words sel)) d st = (r2, st2)"
    by (metis surj_pair)
  note ok = prepare_words_ok[OF Cons.prems(1,2) w]
  show ?case
  proof (cases r2)
    case (Inl e)
    with Cons.prems(3) w ok show ?thesis by auto
  next
    case (Inr d2)
    with Cons.prems(3) w have "prepare_loop L sel ns d2 st2 = (r, st1)" by simp
    with Cons.IH[of d2 st2] ok Inr show ?thesis by blast
  qed
qed

lemma prepare_ok:
  assumes "cache_ok_state st" and "prepare L sel st = (r, st1)"
  shows "cache_ok_state st1 \<and> (\<forall>d1. r = Inr d1 \<longrightarrow> cache_ok d1)"
proof (cases "result_dict st")
  case None
  have "cache_ok (Map.empty :: 'a cache)" by (simp add: cache_ok_def)
  from prepare_loop_ok[OF this assms(1)] assms(2) None show ?thesis
    by (simp add: prepare_def)
next
  case (Some d)
  with assms show ?thesis by (auto simp: prepare_def cache_ok_state_def)
qed

lemma dic_loop_skip:
  assumes "cache_ok dict" and "spec_DIC dict sel n = None" and "this_word_is_key sel"
  shows "dic_loop dict sel (n # ns) acc = dic_loop dict sel ns acc"
proof (cases "dic_candidate dict sel n")
  case None
  then show ?thesis by (cases acc) simp
next
  case (Some c)
  obtain x mo where c: "c = (x, mo)" by (cases c)
  from dic_candidate_undefined[OF assms(1,2) _ assms(3)] Some c have "x = NaN \<or> x = NegInf" by simp
  then have "\<not> fl_less md x" for md by (cases md) auto
  then show ?thesis using Some c by (cases acc) (simp add: fl_greater_def)
qed

text \<open>
  The selection when \<^verbatim>\<open>self.this_word\<close> is the key object of the corpus (as it is when the
  selector is built while iterating over the dictionary). Let \<open>dict\<close> be the cache \<open>prepare\<close>
  returns in a process whose cache, if any, was written by \<open>prepare\<close>. Where the
  specification's DIC is defined at \<open>n\<close>, the candidate's
  value is that DIC and its model is the cached model of the target word. A candidate at
  which the target word failed, and any other candidate without a defined DIC (a missing
  entry, or no other word with a model at \<open>n\<close>, where the mean is \<^verbatim>\<open>nan\<close>), is skipped. When
  the DIC is defined somewhere in the range, \<open>select_DIC\<close> returns the cached model of the
  target word at a state count \<open>k\<close> whose DIC is maximal and strictly larger than the DIC at
  every candidate before \<open>k\<close>.
\<close>

theorem select_DIC_maximal:
  assumes "cache_ok_state st" and "prepare L sel st = (Inr dict, st1)"
    and key: "this_word_is_key sel"
  shows "(\<forall>n v. spec_DIC dict sel n = Some v \<longrightarrow>
            (\<exists>m s. dict (this_word sel, n) = Some (Some m, Fin s) \<and>
                   dic_candidate dict sel n = Some (Fin v, Some m))) \<and>
         (\<forall>n ns acc. dict (this_word sel, n) = Some (None, NegInf) \<or> spec_DIC dict sel n = None \<longrightarrow>
            dic_loop dict sel (n # ns) acc = dic_loop dict sel ns acc) \<and>
         ((\<exists>n \<in> {min_n_components sel .. max_n_components sel}. spec_DIC dict sel n \<noteq> None) \<longrightarrow>
          (\<exists>k \<in> {min_n_components sel .. max_n_components sel}. \<exists>v m s.
             spec_DIC dict sel k = Some v \<and>
             dict (this_word sel, k) = Some (Some m, Fin s) \<and>
             fst (select_DIC L sel st) = Inr (Some m) \<and>
             (\<forall>j \<in> {min_n_components sel .. max_n_components sel}. \<forall>v'.
                spec_DIC dict sel j = Some v' \<longrightarrow> v' \<le> v \<and> (j < k \<longrightarrow> v' < v))))"
proof (intro conjI impI allI)
  have ok: "cache_ok dict" using prepare_ok[OF assms(1,2)] by simp
  {
    fix n v
    assume "spec_DIC dict sel n = Some v"
    from dic_candidate_defined[OF ok this key]
    show "\<exists>m s. dict (this_word sel, n) = Some (Some m, Fin s) \<and>
                dic_candidate dict sel n = Some (Fin v, Some m)" .
  next
    fix n ns acc
    assume "dict (this_word sel, n) = Some (None, NegInf) \<or> spec_DIC dict sel n = None"
    then have "spec_DIC dict sel n = None" by (auto simp: spec_DIC_def)
    from dic_loop_skip[OF ok this key]
    show "dic_loop dict sel (n # ns) acc = dic_loop dict sel ns acc" .
  next
    let ?R = "{min_n_components sel .. max_n_components sel}"
    let ?c = "dic_candidate dict sel"
    assume "\<exists>n \<in> ?R. spec_DIC dict sel n \<noteq> None"
    then obtain n0 v0 where n0: "n0 \<in> ?R" "spec_DIC dict sel n0 = Some v0" by blast
    from dic_candidate_defined[OF ok n0(2) key] obtain m0 where c0: "?c n0 = Some (Fin v0, Some m0)"
      by blast
    obtain md' mm' where loop:
      "dic_loop dict sel [min_n_components sel .. max_n_components sel] (NegInf, None) = (md', mm')"
      by (metis surj_pair)
    have "fl_less NegInf (Fin v0)" by simp
    with dic_loop_inv[OF loop] n0(1) c0
    obtain pre k post x where kk: "[min_n_components sel .. max_n_components sel] = pre @ k # post"
      "?c k = Some (x, mm')" "fl_less NegInf x"
      "\<forall>j\<in>set pre. \<forall>x' mo. ?c j = Some (x', mo) \<longrightarrow> x' = NaN \<or> fl_less x' x"
      "\<forall>j\<in>set post. \<forall>x' mo. ?c j = Some (x', mo) \<longrightarrow> \<not> fl_less x x'"
      by fastforce
    have "spec_DIC dict sel k \<noteq> None"
    proof
      assume "spec_DIC dict sel k = None"
      from dic_candidate_undefined[OF ok this kk(2) key] kk(3) show False by auto
    qed
    then obtain v where v: "spec_DIC dict sel k = Some v" by blast
    from dic_candidate_defined[OF ok v key] kk(2)
    obtain m s where ms: "dict (this_word sel, k) = Some (Some m, Fin s)" "x = Fin v" "mm' = Some m"
      by auto
    have kR: "k \<in> ?R"
      using kk(1) set_upto[of "min_n_components sel" "max_n_components sel"] by (metis in_set_conv_decomp)
    have sel: "fst (select_DIC L sel st) = Inr (Some m)"
      using assms(2) loop ms(3) by (simp add: select_DIC_def)
    have best: "v' \<le> v \<and> (j < k \<longrightarrow> v' < v)" if j: "j \<in> ?R" and sj: "spec_DIC dict sel j = Some v'" for j v'
    proof -
      from dic_candidate_defined[OF ok sj key] obtain mj where cj: "?c j = Some (Fin v', Some mj)" by blast
      have jset: "j \<in> set (pre @ k # post)"
        using j kk(1) set_upto[of "min_n_components sel" "max_n_components sel"] by simp
      have "v' \<le> v"
      proof -
        from jset consider "j \<in> set pre" | "j = k" | "j \<in> set post" by auto
        then show ?thesis
        proof cases
          case 1
          with kk(4) cj ms(2) show ?thesis by fastforce
        next
          case 2
          with sj v show ?thesis by simp
        next
          case 3
          with kk(5) cj ms(2) show ?thesis by fastforce
        qed
      qed
      moreover have "v' < v" if "j < k"
        using upto_split_before[OF kk(1) j that] kk(4) cj ms(2) by fastforce
      ultimately show ?thesis by blast
    qed
    show "\<exists>k \<in> ?R. \<exists>v m s. spec_DIC dict sel k = Some v \<and>
             dict (this_word sel, k) = Some (Some m, Fin s) \<and>
             fst (select_DIC L sel st) = Inr (Some m) \<and>
             (\<forall>j \<in> ?R. \<forall>v'. spec_DIC dict sel j = Some v' \<longrightarrow> v' \<le> v \<and> (j < k \<longrightarrow> v' < v))"
      using kR v ms(1) sel best
      by (intro bexI[of _ k] exI[of _ v] exI[of _ m] exI[of _ s]) simp_all
  }
qed

lemma demo_prepare:
  "fst (prepare dic_lib demo_sel fresh_process) = Inr demo_cache"
  by (simp add: prepare_def demo_sel_def demo_range prepare_entry_def gaussian_fit_def
      dic_lib_def fresh_process_def demo_cache_def Let_def)

theorem select_DIC_maximal_witness:
  "cache_ok_state fresh_process \<and> this_word_is_key demo_sel \<and>
   fst (prepare dic_lib demo_sel fresh_process) = Inr demo_cache \<and>
   spec_DIC demo_cache demo_sel 2 = Some 1 \<and>
   spec_DIC demo_cache demo_sel 3 = Some 5 \<and>
   dic_candidate demo_cache demo_sel 3 = Some (Fin 5, Some 3) \<and>
   dic_loop demo_cache demo_sel [1] (NegInf, None) = dic_loop demo_cache demo_sel [] (NegInf, None) \<and>
   fst (select_DIC dic_lib demo_sel fresh_process) = Inr (Some 3)"
proof -
  have h1: "cache_ok_state fresh_process" by (simp add: cache_ok_state_def fresh_process_def)
  have h2: "prepare dic_lib demo_sel fresh_process = (Inr demo_cache, snd (prepare dic_lib demo_sel fresh_process))"
    using demo_prepare by (metis prod.collapse)
  have h3: "this_word_is_key demo_sel" by (simp add: demo_sel_def)
  note t = select_DIC_maximal[OF h1 h2 h3]
  have s2: "spec_DIC demo_cache demo_sel 2 = Some 1"
    by (simp add: spec_DIC_def spec_DIC_others_def demo_cache_def demo_sel_def List.map_filter_simps)
  have s3: "spec_DIC demo_cache demo_sel 3 = Some 5"
    by (simp add: spec_DIC_def spec_DIC_others_def demo_cache_def demo_sel_def List.map_filter_simps)
  have a1: "demo_cache (this_word demo_sel, 1) = Some (None, NegInf)"
    by (simp add: demo_cache_def demo_sel_def)
  from t s3 have c3: "\<exists>m s. demo_cache (this_word demo_sel, 3) = Some (Some m, Fin s) \<and>
      dic_candidate demo_cache demo_sel 3 = Some (Fin 5, Some m)"
    by blast
  then have c3': "dic_candidate demo_cache demo_sel 3 = Some (Fin 5, Some 3)"
    by (auto simp: demo_cache_def demo_sel_def)
  from t a1 have sk: "dic_loop demo_cache demo_sel [1] (NegInf, None) = dic_loop demo_cache demo_sel [] (NegInf, None)"
    by blast
  have "3 \<in> {min_n_components demo_sel .. max_n_components demo_sel}" by (simp add: demo_sel_def)
  with t s3 obtain k v m s where k: "k \<in> {min_n_components demo_sel .. max_n_components demo_sel}"
    "spec_DIC demo_cache demo_sel k = Some v" "demo_cache (this_word demo_sel, k) = Some (Some m, Fin s)"
    "fst (select_DIC dic_lib demo_sel fresh_process) = Inr (Some m)"
    "\<forall>j \<in> {min_n_components demo_sel .. max_n_components demo_sel}. \<forall>v'.
        spec_DIC demo_cache demo_sel j = Some v' \<longrightarrow> v' \<le> v \<and> (j < k \<longrightarrow> v' < v)"
    by (metis option.distinct(1))
  have r: "fst (select_DIC dic_lib demo_sel fresh_process) = Inr (Some 3)"
    unfolding select_DIC_def
    by (subst h2) (simp add: demo_sel_def demo_range demo_cache_def dic_candidate_def
        np_mean_def fl_greater_def)
  from h1 h3 demo_prepare s2 s3 c3' sk r show ?thesis by blast
qed

text \<open>
  Claim C4. The claim fails on the code when the selector was built with a string equal to
  the key \<open>''FISH''\<close> that is another object: \<^verbatim>\<open>w is not self.this_word\<close> then holds for
  every key, and the target word itself is averaged among the others. With two states the
  other word has no model, so the DIC of the claim is undefined there and its maximum is at
  three states (\<open>0 - 1 = -1\<close>); the code computes \<open>0 - mean [0] = 0\<close> with two states and
  \<open>0 - mean [0, 1] = -1/2\<close> with three, and returns the model with two states. With the key
  object itself the same inputs give the model with three states. The class's docstring
  reads \<^verbatim>\<open>SUM(log(P(X(all but i))\<close>.
\<close>

theorem select_DIC_distinct_object:
  "fst (prepare fish_lib fish_sel fresh_process) = Inr fish_cache \<and>
   dic_candidate fish_cache fish_sel 2 = Some (Fin 0, Some 2) \<and>
   dic_candidate fish_cache fish_sel 3 = Some (Fin (- 1 / 2), Some 3) \<and>
   fst (select_DIC fish_lib fish_sel fresh_process) = Inr (Some 2) \<and>
   spec_DIC fish_cache fish_sel 2 = None \<and>
   spec_DIC fish_cache fish_sel 3 = Some (- 1) \<and>
   fst (select_DIC fish_lib (fish_sel\<lparr>this_word_is_key := True\<rparr>) fresh_process) = Inr (Some 3)"
proof -
  have p: "fst (prepare fish_lib fish_sel fresh_process) = Inr fish_cache"
    by (simp add: prepare_def fish_sel_def upto_rec1 prepare_entry_def gaussian_fit_def
        fish_lib_def fresh_process_def fish_cache_def Let_def)
  have c2: "dic_candidate fish_cache fish_sel 2 = Some (Fin 0, Some 2)"
    by (simp add: dic_candidate_def fish_cache_def fish_sel_def np_mean_def)
  have c3: "dic_candidate fish_cache fish_sel 3 = Some (Fin (- 1 / 2), Some 3)"
    by (simp add: dic_candidate_def fish_cache_def fish_sel_def np_mean_def)
  have s: "fst (select_DIC fish_lib fish_sel fresh_process) = Inr (Some 2)"
    by (simp add: select_DIC_def prepare_def fish_sel_def upto_rec1 prepare_entry_def gaussian_fit_def
        fish_lib_def fresh_process_def Let_def dic_candidate_def np_mean_def fl_greater_def)
  have d2: "spec_DIC fish_cache fish_sel 2 = None"
    by (simp add: spec_DIC_def spec_DIC_others_def fish_cache_def fish_sel_def List.map_filter_simps)
  have d3: "spec_DIC fish_cache fish_sel 3 = Some (- 1)"
    by (simp add: spec_DIC_def spec_DIC_others_def fish_cache_def fish_sel_def List.map_filter_simps)
  have k: "fst (select_DIC fish_lib (fish_sel\<lparr>this_word_is_key := True\<rparr>) fresh_process) = Inr (Some 3)"
    by (simp add: select_DIC_def prepare_def fish_sel_def upto_rec1 prepare_entry_def gaussian_fit_def
        fish_lib_def fresh_process_def Let_def dic_candidate_def np_mean_def fl_greater_def)
  from p c2 c3 s d2 d3 k show ?thesis by blast
qed

section \<open>The cache of SelectorDIC across calls\<close>

lemma select_DIC_populated:
  assumes "result_dict st = Some dict"
  shows "select_DIC L sel st =
     (case snd (dic_loop dict sel [min_n_components sel .. max_n_components sel] (NegInf, None)) of
        None \<Rightarrow> (Inr (fit L (n_constant sel) (random_state sel) (self_X sel, self_lengths sel)),
                 st\<lparr>fit_calls := fit_calls st @ [(n_constant sel, (self_X sel, self_lengths sel))]\<rparr>)
      | Some m \<Rightarrow> (Inr (Some m), st))"
  using assms
  by (simp add: select_DIC_def prepare_def base_model_def gaussian_fit_def split: prod.splits option.splits)

text \<open>
  Claim C5, as amended. Once the class attribute holds a cache, \<open>prepare\<close> of any selector
  (for the same or a different word) returns that cache and leaves the process as it is: no
  entry is recomputed. A later \<open>select_DIC\<close> keeps the cache; it calls the trainer only when
  its search retains no candidate, and then once: the fallback \<open>base_model\<close> at
  \<open>n_constant\<close> on the target word's data.
\<close>

theorem prepare_once:
  assumes "result_dict st = Some dict"
  shows "prepare L sel st = (Inr dict, st) \<and>
         result_dict (snd (select_DIC L sel st)) = Some dict \<and>
         fit_calls (snd (select_DIC L sel st)) =
           fit_calls st @
             (if snd (dic_loop dict sel [min_n_components sel .. max_n_components sel] (NegInf, None)) = None
              then [(n_constant sel, (self_X sel, self_lengths sel))] else [])"
  using assms
  by (auto simp: select_DIC_populated prepare_populated split: option.splits)

theorem prepare_once_witness:
  "result_dict narrow_state = Some narrow_cache \<and>
   prepare dic_lib demo_sel narrow_state = (Inr narrow_cache, narrow_state) \<and>
   result_dict (snd (select_DIC dic_lib demo_sel narrow_state)) = Some narrow_cache \<and>
   fit_calls (snd (select_DIC dic_lib demo_sel narrow_state)) = fit_calls narrow_state"
proof -
  have h: "result_dict narrow_state = Some narrow_cache" by (simp add: narrow_state_def)
  have l: "snd (dic_loop narrow_cache demo_sel [min_n_components demo_sel .. max_n_components demo_sel]
             (NegInf, None)) = Some 3"
    by (simp add: demo_sel_def demo_range narrow_cache_def dic_candidate_def np_mean_def fl_greater_def)
  from prepare_once[OF h, of dic_lib demo_sel] l h show ?thesis by simp
qed

text \<open>
  The claim as stated fails: after a first \<open>select_DIC\<close> the cache holds a model for
  \<open>(''A'', 3)\<close>, and a second \<open>select_DIC\<close> with the same inputs trains \<open>''A''\<close> with three
  states again (the fallback), so the trainer's call count grows from 5 to 6.
\<close>

theorem prepare_once_counterexample:
  "select_DIC dic_lib cv_sel fresh_process = (Inr (Some 3), after_first) \<and>
   the (result_dict after_first) (''A'', 3) = Some (Some 3, Fin (- 5)) \<and>
   length (fit_calls after_first) = 5 \<and>
   length (fit_calls (snd (select_DIC dic_lib cv_sel after_first))) = 6 \<and>
   last (fit_calls (snd (select_DIC dic_lib cv_sel after_first))) = (3, the (hwords cv_sel ''A''))"
  by (simp add: select_DIC_def prepare_def cv_sel_def demo_range prepare_entry_def gaussian_fit_def
      base_model_def dic_lib_def fresh_process_def after_first_def single_cache_def Let_def
      dic_candidate_def np_mean_def fl_greater_def)

lemma dic_candidate_missing:
  "dict (this_word sel, n) = None \<Longrightarrow> dic_candidate dict sel n = None"
  by (simp add: dic_candidate_def)

lemma dic_loop_selected:
  assumes "dic_loop dict sel ns (NegInf, None) = (md, Some m)"
  shows "\<exists>k\<in>set ns. \<exists>s. dict (this_word sel, k) = Some (Some m, s)"
proof -
  from dic_loop_inv[OF assms]
  obtain pre k post x where "ns = pre @ k # post" "dic_candidate dict sel k = Some (x, Some m)"
    by auto
  then show ?thesis
    by (auto simp: dic_candidate_def Let_def split: option.splits)
qed

text \<open>
  Claim C10. Once the class attribute holds a cache, \<open>prepare\<close> of any later selector,
  whatever its range, returns that cache and leaves the process as it is. A state count
  \<open>n\<close> for which the cache has no entry of the target word is skipped by the search (the
  lookup's KeyError is caught), a model the search retains is the cached model of a state
  count of the range that has an entry, and the only call of the trainer \<open>select_DIC\<close> can
  make is the fallback's at \<open>n_constant\<close>: the extra candidates are never trained.
\<close>

theorem prepare_ignores_range:
  assumes "result_dict st = Some dict"
  shows "prepare L sel st = (Inr dict, st) \<and>
         (\<forall>n. dict (this_word sel, n) = None \<longrightarrow>
            dic_candidate dict sel n = None \<and>
            (\<forall>ns acc. dic_loop dict sel (n # ns) acc = dic_loop dict sel ns acc)) \<and>
         (\<forall>m. snd (dic_loop dict sel [min_n_components sel .. max_n_components sel] (NegInf, None)) = Some m \<longrightarrow>
            fst (select_DIC L sel st) = Inr (Some m) \<and>
            (\<exists>k \<in> {min_n_components sel .. max_n_components sel}. \<exists>s.
               dict (this_word sel, k) = Some (Some m, s))) \<and>
         set (fit_calls (snd (select_DIC L sel st))) \<subseteq>
           set (fit_calls st) \<union> {(n_constant sel, (self_X sel, self_lengths sel))}"
proof (intro conjI allI impI)
  show "prepare L sel st = (Inr dict, st)" using assms by (rule prepare_populated)
next
  fix n assume "dict (this_word sel, n) = None"
  then show "dic_candidate dict sel n = None" by (rule dic_candidate_missing)
next
  fix n ns acc assume "dict (this_word sel, n) = None"
  then have "dic_candidate dict sel n = None" by (rule dic_candidate_missing)
  then show "dic_loop dict sel (n # ns) acc = dic_loop dict sel ns acc" by (cases acc) simp
next
  fix m
  assume m: "snd (dic_loop dict sel [min_n_components sel .. max_n_components sel] (NegInf, None)) = Some m"
  then show "fst (select_DIC L sel st) = Inr (Some m)"
    using assms by (simp add: select_DIC_populated)
  from m obtain md where
    "dic_loop dict sel [min_n_components sel .. max_n_components sel] (NegInf, None) = (md, Some m)"
    by (metis prod.collapse)
  from dic_loop_selected[OF this]
  show "\<exists>k \<in> {min_n_components sel .. max_n_components sel}. \<exists>s.
               dict (this_word sel, k) = Some (Some m, s)"
    by simp
next
  show "set (fit_calls (snd (select_DIC L sel st))) \<subseteq>
           set (fit_calls st) \<union> {(n_constant sel, (self_X sel, self_lengths sel))}"
    using assms by (auto simp: select_DIC_populated split: option.splits)
qed

theorem prepare_ignores_range_witness:
  "select_DIC dic_lib narrow_sel fresh_process = (Inr (Some 3), narrow_state) \<and>
   result_dict narrow_state = Some narrow_cache \<and>
   prepare dic_lib demo_sel narrow_state = (Inr narrow_cache, narrow_state) \<and>
   min_n_components demo_sel = 1 \<and> max_n_components demo_sel = 4 \<and>
   narrow_cache (this_word demo_sel, 4) = None \<and>
   dic_candidate narrow_cache demo_sel 4 = None \<and>
   dic_loop narrow_cache demo_sel [4] (NegInf, None) = dic_loop narrow_cache demo_sel [] (NegInf, None) \<and>
   select_DIC dic_lib demo_sel narrow_state = (Inr (Some 3), narrow_state)"
proof -
  have h: "result_dict narrow_state = Some narrow_cache" by (simp add: narrow_state_def)
  note t = prepare_ignores_range[OF h, of dic_lib demo_sel]
  have a: "select_DIC dic_lib narrow_sel fresh_process = (Inr (Some 3), narrow_state)"
    by (simp add: select_DIC_def prepare_def narrow_sel_def demo_sel_def upto_rec1 prepare_entry_def
        gaussian_fit_def dic_lib_def fresh_process_def narrow_state_def narrow_cache_def Let_def
        dic_candidate_def np_mean_def fl_greater_def)
  have r: "min_n_components demo_sel = 1" "max_n_components demo_sel = 4"
    by (simp_all add: demo_sel_def)
  have k: "narrow_cache (this_word demo_sel, 4) = None"
    by (simp add: narrow_cache_def demo_sel_def)
  from t k have c: "dic_candidate narrow_cache demo_sel 4 = None"
    "dic_loop narrow_cache demo_sel [4] (NegInf, None) = dic_loop narrow_cache demo_sel [] (NegInf, None)"
    by blast+
  from t have p: "prepare dic_lib demo_sel narrow_state = (Inr narrow_cache, narrow_state)" by blast
  have s: "select_DIC dic_lib demo_sel narrow_state = (Inr (Some 3), narrow_state)"
    by (simp add: select_DIC_populated[OF h] demo_sel_def demo_range narrow_cache_def
        dic_candidate_def np_mean_def fl_greater_def)
  from a h p r k c s show ?thesis by blast
qed

section \<open>Repeated selection and the fallback\<close>

lemma bic_loop_state_indep:
  "fst (bic_loop L sel ns acc st) = fst (bic_loop L sel ns acc st')"
proof (induction ns arbitrary: acc st st')
  case Nil
  then show ?case by (cases acc) simp
next
  case (Cons n ns)
  obtain ms mm where acc: "acc = (ms, mm)" by (cases acc)
  show ?case
    unfolding acc
    by (auto simp: base_model_def gaussian_fit_def intro: Cons.IH split: option.splits)
qed

lemma cv_folds_state_indep:
  "fst (cv_folds L sel n fs acc st) = fst (cv_folds L sel n fs acc st')"
proof (induction fs arbitrary: acc st st')
  case Nil
  then show ?case by (cases acc) simp
next
  case (Cons f fs)
  obtain train test where f: "f = (train, test)" by (cases f)
  obtain res wm where acc: "acc = (res, wm)" by (cases acc)
  show ?case
    unfolding f acc
    by (auto simp: gaussian_fit_def intro: Cons.IH split: option.splits)
qed

lemma cv_loop_state_indep:
  "fst (cv_loop L sel ns acc st) = fst (cv_loop L sel ns acc st')"
proof (induction ns arbitrary: acc st st')
  case Nil
  then show ?case by (cases acc) auto
next
  case (Cons n ns)
  obtain mc mm wm where acc: "acc = (mc, mm, wm)" by (cases acc)
  let ?F = "kfold L spl (sequences sel)"
  obtain res wm1 st1 where f1: "cv_folds L sel n ?F ([], wm) st = ((res, wm1), st1)"
    by (metis surj_pair)
  obtain res' wm1' st1' where f2: "cv_folds L sel n ?F ([], wm) st' = ((res', wm1'), st1')"
    by (metis surj_pair)
  from cv_folds_state_indep[of L sel n ?F "([], wm)" st st'] f1 f2
  have eq: "res' = res" "wm1' = wm1" by simp_all
  show ?case
    unfolding acc using f1 f2 eq
    by (auto simp: Let_def intro: Cons.IH)
qed

lemma select_state_indep:
  assumes "s \<noteq> DIC"
  shows "fst (select s L sel st) = fst (select s L sel st')"
proof (cases s)
  case Constant
  then show ?thesis
    by (simp add: select_Constant_def base_model_def gaussian_fit_def Let_def)
next
  case BIC
  obtain ms mm st1 where l1:
    "bic_loop L sel [min_n_components sel .. max_n_components sel] (PosInf, None) st = ((ms, mm), st1)"
    by (metis surj_pair)
  obtain ms' mm' st1' where l2:
    "bic_loop L sel [min_n_components sel .. max_n_components sel] (PosInf, None) st' = ((ms', mm'), st1')"
    by (metis surj_pair)
  from bic_loop_state_indep[of L sel "[min_n_components sel .. max_n_components sel]" "(PosInf, None)" st st'] l1 l2
  have "mm' = mm" by simp
  then show ?thesis
    using BIC l1 l2
    by (auto simp: select_BIC_def base_model_def gaussian_fit_def split: option.splits)
next
  case DIC
  with assms show ?thesis by simp
next
  case CV
  obtain mc mm wm st1 where l1:
    "cv_loop L sel [min_n_components sel .. max_n_components sel] (NegInf, None, None) st = ((mc, mm, wm), st1)"
    by (metis surj_pair)
  obtain mc' mm' wm' st1' where l2:
    "cv_loop L sel [min_n_components sel .. max_n_components sel] (NegInf, None, None) st' = ((mc', mm', wm'), st1')"
    by (metis surj_pair)
  from cv_loop_state_indep[of L sel "[min_n_components sel .. max_n_components sel]" "(NegInf, None, None)" st st'] l1 l2
  have "mm' = mm" by simp
  then show ?thesis
    using CV l1 l2
    by (auto simp: select_CV_def base_model_def gaussian_fit_def split: option.splits)
qed

lemma prepare_words_Inr:
  assumes "prepare_words L sel n ws d st = (Inr d1, st1)"
  shows "(ws = [] \<and> d1 = d \<and> st1 = st) \<or> result_dict st1 = Some d1"
  using assms
proof (induction ws arbitrary: d st)
  case Nil
  then show ?case by simp
next
  case (Cons w ws)
  from Cons.prems obtain xl where xl: "hwords sel w = Some xl"
    by (cases "hwords sel w") auto
  obtain e st2 where e: "prepare_entry L sel n xl st = (e, st2)" by (metis surj_pair)
  let ?d = "d((w, n) \<mapsto> e)"
  from Cons.prems xl e
  have "prepare_words L sel n ws ?d (st2\<lparr>result_dict := Some ?d\<rparr>) = (Inr d1, st1)"
    by (simp add: Let_def)
  from Cons.IH[OF this] show ?case by (elim disjE conjE) (simp_all add: fun_upd_def)
qed

lemma prepare_loop_nothing:
  "ns = [] \<or> words sel = [] \<Longrightarrow> prepare_loop L sel ns d st = (Inr d, st)"
  by (induction ns) auto

lemma prepare_loop_Inr:
  assumes "prepare_loop L sel ns d st = (Inr d1, st1)"
  shows "result_dict st1 = Some d1 \<or> ((ns = [] \<or> words sel = []) \<and> d1 = d \<and> st1 = st)"
  using assms
proof (induction ns arbitrary: d st)
  case Nil
  then show ?case by simp
next
  case (Cons n ns)
  obtain r2 st2 where w: "prepare_words L sel n (map fst (words sel)) d st = (r2, st2)"
    by (metis surj_pair)
  with Cons.prems obtain d2 where r2: "r2 = Inr d2"
    by (cases r2) auto
  with Cons.prems w have rec: "prepare_loop L sel ns d2 st2 = (Inr d1, st1)" by simp
  from Cons.IH[OF rec] prepare_words_Inr[OF w[unfolded r2]]
  show ?case by auto
qed

lemma prepare_again:
  assumes "prepare L sel st = (Inr d, st1)" and "result_dict st' = result_dict st1"
  shows "fst (prepare L sel st') = Inr d"
proof (cases "result_dict st")
  case (Some d0)
  with assms show ?thesis by (auto simp: prepare_def)
next
  case None
  with assms(1) have l:
    "prepare_loop L sel [min_n_components sel .. max_n_components sel] Map.empty st = (Inr d, st1)"
    by (simp add: prepare_def)
  from prepare_loop_Inr[OF l] show ?thesis
  proof
    assume "result_dict st1 = Some d"
    with assms(2) show ?thesis by (simp add: prepare_def)
  next
    assume a: "([min_n_components sel .. max_n_components sel] = [] \<or> words sel = []) \<and>
       d = Map.empty \<and> st1 = st"
    then have "result_dict st' = None" using assms(2) None by simp
    then show ?thesis
      using a prepare_loop_nothing[of "[min_n_components sel .. max_n_components sel]" sel L Map.empty st']
      by (simp add: prepare_def)
  qed
qed

lemma select_DIC_fst:
  assumes "prepare L sel st = (Inr d, st1)"
  shows "fst (select_DIC L sel st) =
     (case snd (dic_loop d sel [min_n_components sel .. max_n_components sel] (NegInf, None)) of
        None \<Rightarrow> Inr (fit L (n_constant sel) (random_state sel) (self_X sel, self_lengths sel))
      | Some m \<Rightarrow> Inr (Some m))"
    and "result_dict (snd (select_DIC L sel st)) = result_dict st1"
  using assms
  by (auto simp: select_DIC_def base_model_def gaussian_fit_def split: prod.splits option.splits)

lemma select_DIC_again:
  assumes "fst (select_DIC L sel st) = Inr r"
  shows "fst (select_DIC L sel (snd (select_DIC L sel st))) = Inr r"
proof -
  obtain p st1 where p: "prepare L sel st = (p, st1)" by (metis surj_pair)
  with assms obtain d where d: "p = Inr d"
    by (cases p) (auto simp: select_DIC_def)
  define st' where "st' = snd (select_DIC L sel st)"
  have rd: "result_dict st' = result_dict st1"
    unfolding st'_def using select_DIC_fst(2)[OF p[unfolded d]] .
  obtain st2 where p2: "prepare L sel st' = (Inr d, st2)"
    using prepare_again[OF p[unfolded d] rd] by (metis prod.collapse)
  have "fst (select_DIC L sel st') = fst (select_DIC L sel st)"
    by (simp only: select_DIC_fst(1)[OF p2] select_DIC_fst(1)[OF p[unfolded d]])
  with assms show ?thesis by (simp add: st'_def)
qed

text \<open>
  Claim C9. For every strategy, when \<open>select\<close> returns (it raises no KeyError), a second
  \<open>select\<close> with the same selector and trainer, in the process the first call left, returns
  the same result: the same model, which therefore scores every evaluation set as the
  first one does.
\<close>

theorem select_twice:
  assumes "fst (select s L sel st) = Inr r"
  shows "fst (select s L sel (snd (select s L sel st))) = Inr r \<and>
         (\<forall>m xl. r = Some m \<longrightarrow>
            (\<exists>m'. fst (select s L sel (snd (select s L sel st))) = Inr (Some m') \<and>
                  score L m' xl = score L m xl))"
proof -
  have "fst (select s L sel (snd (select s L sel st))) = Inr r"
  proof (cases "s = DIC")
    case True
    with assms select_DIC_again[of L sel st r] show ?thesis by simp
  next
    case False
    from select_state_indep[OF this, of L sel "snd (select s L sel st)" st] assms
    show ?thesis by simp
  qed
  then show ?thesis by simp
qed

theorem select_twice_witness:
  "fst (select DIC dic_lib demo_sel fresh_process) = Inr (Some 3) \<and>
   fst (select DIC dic_lib demo_sel (snd (select DIC dic_lib demo_sel fresh_process))) = Inr (Some 3) \<and>
   result_dict (snd (select DIC dic_lib demo_sel fresh_process)) = Some demo_cache"
proof -
  have a: "select_DIC dic_lib demo_sel fresh_process =
      (Inr (Some 3), snd (prepare dic_lib demo_sel fresh_process))"
    unfolding select_DIC_def
    by (subst surjective_pairing[of "prepare dic_lib demo_sel fresh_process"], subst demo_prepare)
       (simp add: demo_sel_def demo_range demo_cache_def dic_candidate_def np_mean_def fl_greater_def)
  then have h: "fst (select DIC dic_lib demo_sel fresh_process) = Inr (Some 3)" by simp
  have c: "result_dict (snd (select DIC dic_lib demo_sel fresh_process)) = Some demo_cache"
    by (simp add: a)
       (simp add: prepare_def demo_sel_def demo_range prepare_entry_def gaussian_fit_def
          dic_lib_def fresh_process_def demo_cache_def Let_def)
  from select_twice[OF h] h c show ?thesis by blast
qed

text \<open>
  Claim C2, as amended. For every strategy, \<open>select\<close> returns the candidate its search
  retained, and when none survived the result of \<open>base_model\<close> at \<open>n_constant\<close>: the model
  if that training succeeds, and \<^verbatim>\<open>None\<close> if it fails (\<open>base_model\<close> catches the failure, it
  does not reach the caller). So the result is a model whenever the fallback training
  succeeds. Only SelectorDIC can raise (KeyError, from \<open>prepare\<close>).
\<close>

theorem select_fallback:
  "fst (select s L sel st) =
     (case survivor s L sel st of
        Inl e \<Rightarrow> Inl e
      | Inr (Some m) \<Rightarrow> Inr (Some m)
      | Inr None \<Rightarrow> Inr (fit L (n_constant sel) (random_state sel) (self_X sel, self_lengths sel))) \<and>
   (s \<noteq> DIC \<longrightarrow> (\<exists>r. fst (select s L sel st) = Inr r)) \<and>
   (\<forall>m0 r. fit L (n_constant sel) (random_state sel) (self_X sel, self_lengths sel) = Some m0 \<and>
       fst (select s L sel st) = Inr r \<longrightarrow> r \<noteq> None)"
proof -
  have eq: "fst (select s L sel st) =
     (case survivor s L sel st of
        Inl e \<Rightarrow> Inl e
      | Inr (Some m) \<Rightarrow> Inr (Some m)
      | Inr None \<Rightarrow> Inr (fit L (n_constant sel) (random_state sel) (self_X sel, self_lengths sel)))"
  proof (cases s)
    case Constant
    then show ?thesis
      by (simp add: select_Constant_def base_model_def gaussian_fit_def Let_def)
  next
    case BIC
    then show ?thesis
      by (auto simp: select_BIC_def base_model_def gaussian_fit_def split: prod.splits option.splits)
  next
    case DIC
    then show ?thesis
      by (auto simp: select_DIC_def base_model_def gaussian_fit_def split: prod.splits option.splits sum.splits)
  next
    case CV
    then show ?thesis
      by (auto simp: select_CV_def base_model_def gaussian_fit_def split: prod.splits option.splits)
  qed
  have noraise: "\<exists>r. fst (select s L sel st) = Inr r" if "s \<noteq> DIC"
    using that by (cases s) (auto split: prod.splits)
  have nonnull: "r \<noteq> None"
    if "fit L (n_constant sel) (random_state sel) (self_X sel, self_lengths sel) = Some m0"
      and "fst (select s L sel st) = Inr r" for m0 r
  proof (cases "survivor s L sel st")
    case (Inl e)
    with that(2) eq show ?thesis by simp
  next
    case (Inr c)
    show ?thesis
    proof (cases c)
      case None
      with Inr eq have "fst (select s L sel st) = Inr (Some m0)"
        by (simp add: that(1))
      with that(2) show ?thesis by auto
    next
      case (Some m)
      with Inr eq that(2) show ?thesis by auto
    qed
  qed
  from eq noraise nonnull show ?thesis by blast
qed

theorem select_fallback_witness:
  "CV \<noteq> DIC \<and>
   survivor CV peak_lib demo_sel fresh_process = Inr None \<and>
   fit peak_lib (n_constant demo_sel) (random_state demo_sel) (self_X demo_sel, self_lengths demo_sel) = Some 3 \<and>
   fst (select CV peak_lib demo_sel fresh_process) = Inr (Some 3)"
proof -
  have sv: "survivor CV peak_lib demo_sel fresh_process = Inr None"
    by (simp add: cv_loop_too_few demo_sel_def spl_def)
  have f: "fit peak_lib (n_constant demo_sel) (random_state demo_sel) (self_X demo_sel, self_lengths demo_sel) = Some 3"
    by (simp add: peak_lib_def demo_sel_def)
  from select_fallback[of CV peak_lib demo_sel fresh_process]
  have "fst (select CV peak_lib demo_sel fresh_process) =
     (case survivor CV peak_lib demo_sel fresh_process of
        Inl e \<Rightarrow> Inl e
      | Inr (Some m) \<Rightarrow> Inr (Some m)
      | Inr None \<Rightarrow> Inr (fit peak_lib (n_constant demo_sel) (random_state demo_sel)
                          (self_X demo_sel, self_lengths demo_sel)))"
    by blast
  then have "fst (select CV peak_lib demo_sel fresh_process) = Inr (Some 3)"
    by (simp only: sv f sum.case option.case)
  with sv f show ?thesis by simp
qed

text \<open>
  The claim as stated fails: with a trainer that always fails, every strategy returns
  \<^verbatim>\<open>None\<close> (\<open>Inr None\<close>); nothing is raised (\<open>Inl\<close>).
\<close>

theorem select_fallback_counterexample:
  "fst (select Constant failing_lib demo_sel fresh_process) = Inr None \<and>
   fst (select BIC failing_lib demo_sel fresh_process) = Inr None \<and>
   fst (select DIC failing_lib demo_sel fresh_process) = Inr None \<and>
   fst (select CV failing_lib demo_sel fresh_process) = Inr None"
  by (simp add: select_Constant_def select_BIC_def select_DIC_def select_CV_def prepare_def
      demo_sel_def demo_range prepare_entry_def gaussian_fit_def base_model_def bic_score_def
      failing_lib_def fresh_process_def Let_def dic_candidate_def np_mean_def fl_greater_def spl_def)

section \<open>The example selectors and the processes a program reaches\<close>

lemma demo_sel_init:
  "init_selector [(''A'', [[[0]]]), (''B'', [[[1]]])]
     [''A'' \<mapsto> ([[0]], [1]), ''B'' \<mapsto> ([[1]], [1])] ''A'' True 3 1 4 14 = Inr demo_sel"
  by (simp add: init_selector_def demo_sel_def)

lemma fish_sel_init:
  "init_selector [(''FISH'', [[[0]]]), (''BOOK'', [[[1]]])]
     [''FISH'' \<mapsto> ([[0]], [1]), ''BOOK'' \<mapsto> ([[1]], [1])] ''FISH'' False 3 2 3 14 = Inr fish_sel"
  by (simp add: init_selector_def fish_sel_def)

lemma cv_sel_init:
  "init_selector [(''A'', [[[0]], [[1]], [[2]]])]
     [''A'' \<mapsto> ([[0], [1], [2]], [1, 1, 1])] ''A'' True 3 1 4 14 = Inr cv_sel"
  by (simp add: init_selector_def cv_sel_def)

lemma init_selector_missing:
  "map_of all_word_sequences w = None \<or> all_word_Xlengths w = None \<Longrightarrow>
   init_selector all_word_sequences all_word_Xlengths w is_key nc mn mx seed = Inl KeyError"
  by (auto simp: init_selector_def split: option.splits)

lemma base_model_cache: "result_dict (snd (base_model L sel n st)) = result_dict st"
  by (simp add: base_model_def gaussian_fit_def)

lemma bic_loop_cache: "result_dict (snd (bic_loop L sel ns acc st)) = result_dict st"
proof (induction ns arbitrary: acc st)
  case Nil
  then show ?case by (cases acc) simp
next
  case (Cons n ns)
  obtain ms mm where acc: "acc = (ms, mm)" by (cases acc)
  show ?case
    unfolding acc
    by (simp add: base_model_def gaussian_fit_def Cons.IH split: option.splits)
qed

lemma cv_folds_cache: "result_dict (snd (cv_folds L sel n fs acc st)) = result_dict st"
proof (induction fs arbitrary: acc st)
  case Nil
  then show ?case by (cases acc) simp
next
  case (Cons f fs)
  obtain train test where f: "f = (train, test)" by (cases f)
  obtain res wm where acc: "acc = (res, wm)" by (cases acc)
  show ?case
    unfolding f acc
    by (simp add: gaussian_fit_def Cons.IH split: option.splits)
qed

lemma cv_loop_cache: "result_dict (snd (cv_loop L sel ns acc st)) = result_dict st"
proof (induction ns arbitrary: acc st)
  case Nil
  then show ?case by (cases acc) auto
next
  case (Cons n ns)
  obtain mc mm wm where acc: "acc = (mc, mm, wm)" by (cases acc)
  obtain res wm1 st1 where f: "cv_folds L sel n (kfold L spl (sequences sel)) ([], wm) st = ((res, wm1), st1)"
    by (metis surj_pair)
  from cv_folds_cache[of L sel n "kfold L spl (sequences sel)" "([], wm)" st] f
  have "result_dict st1 = result_dict st" by simp
  then show ?case
    unfolding acc using f by (simp add: Let_def Cons.IH)
qed

lemma select_cache:
  assumes "s \<noteq> DIC"
  shows "result_dict (snd (select s L sel st)) = result_dict st"
proof (cases s)
  case Constant
  then show ?thesis
    by (simp add: select_Constant_def base_model_cache split_beta)
next
  case BIC
  then show ?thesis
    by (simp add: select_BIC_def base_model_cache bic_loop_cache split_beta split: option.splits)
next
  case DIC
  with assms show ?thesis by simp
next
  case CV
  then show ?thesis
    by (simp add: select_CV_def base_model_cache cv_loop_cache split_beta split: option.splits)
qed

text \<open>
  Every cache a program can reach is well formed: a fresh process has none, and \<open>select\<close>
  of any strategy keeps \<open>cache_ok_state\<close>.
\<close>

lemma cache_ok_state_select:
  assumes "cache_ok_state st"
  shows "cache_ok_state (snd (select s L sel st))"
proof (cases "s = DIC")
  case True
  obtain p st1 where p: "prepare L sel st = (p, st1)" by (metis surj_pair)
  from prepare_ok[OF assms p] have ok: "cache_ok_state st1" by simp
  have "result_dict (snd (select_DIC L sel st)) = result_dict st1"
    using p by (auto simp: select_DIC_def base_model_def gaussian_fit_def split: sum.splits option.splits prod.splits)
  with ok True show ?thesis by (simp add: cache_ok_state_def)
next
  case False
  from select_cache[OF this, of L sel st] assms show ?thesis by (simp add: cache_ok_state_def)
qed

end
